theory Spec2Isabelle
  imports Complex_Main
begin

section \<open>Data model\<close>

text \<open>
  The editor is a React component (\<^verbatim>\<open>App\<close>) that exists in three revisions: the
  single-map editor of \<^verbatim>\<open>src/src/App.js\<close>, the first multi-map editor (the first
  document of \<^verbatim>\<open>src/unnamed/part_000\<close>) and the editor with history, colours and
  undo (the second document of \<^verbatim>\<open>part_000\<close>). The state hooks of the component are
  the fields of a record, every handler is a function from state to state, and the
  handlers run one after the other, each on the state the previous one left.

  Coordinates are JavaScript numbers, that is IEEE doubles. The model takes the finite
  ones, each as the real number it denotes: \<^verbatim>\<open>===\<close> on them is equality, and the
  copy through \<^verbatim>\<open>JSON\<close> gives the same number back. Their sum and product are not
  the exact ones: the engine rounds the result to a double, so \<^verbatim>\<open>+\<close> and \<^verbatim>\<open>*\<close> are
  parameters of the handlers that compute with coordinates (\<open>js_add\<close>, \<open>js_mul\<close>).
  Where the operands and the exact result are integers of magnitude up to \<open>2^53\<close>,
  the engine's result is the exact one: that instance is \<open>exact\<close>, and the example
  documents, whose coordinates are small integers, run on it. \<^verbatim>\<open>NaN\<close> and the
  infinities are outside the model.

  A node's \<^verbatim>\<open>data.color\<close> and its \<^verbatim>\<open>hidden\<close> field may be missing (\<open>None\<close>); a
  missing \<^verbatim>\<open>hidden\<close> reads as false (\<open>isHidden\<close>), which is how \<^verbatim>\<open>!n.hidden\<close>
  takes it. The field \<^verbatim>\<open>type: 'custom'\<close> is the same on every node and is left out,
  as are the handle names of an edge, which no handler modelled here reads.
\<close>

record position =
  pos_x :: real
  pos_y :: real

record node =
  node_id :: string
  position :: position
  label :: string
  color :: "string option"
  hidden :: "bool option"

definition isHidden :: "node \<Rightarrow> bool" where
  "isHidden n = (hidden n = Some True)"

record arith =
  js_add :: "real \<Rightarrow> real \<Rightarrow> real"
  js_mul :: "real \<Rightarrow> real \<Rightarrow> real"

definition exact :: arith where
  "exact = \<lparr>js_add = (\<lambda>a b. a + b), js_mul = (\<lambda>a b. a * b)\<rparr>"

record edge =
  edge_id :: string
  source :: string
  target :: string

text \<open>A history entry \<^verbatim>\<open>{ n: ..., e: ... }\<close>.\<close>

record snapshot =
  snap_n :: "node list"
  snap_e :: "edge list"

datatype view = ListView | EditView

text \<open>
  The hooks of the editor with history: \<^verbatim>\<open>view\<close>, \<^verbatim>\<open>mapId\<close>, \<^verbatim>\<open>nodes\<close>,
  \<^verbatim>\<open>edges\<close>, \<^verbatim>\<open>selected\<close> (the node object handed over by the click, a copy that
  later edits of the node list do not touch), \<^verbatim>\<open>history\<close> and the lock
  \<^verbatim>\<open>isSavingRef.current\<close>.
\<close>

record state =
  view :: view
  mapId :: "string option"
  nodes :: "node list"
  edges :: "edge list"
  selected :: "node option"
  history :: "snapshot list"
  isSaving :: bool

record document =
  name :: string
  doc_nodes :: "node list"
  doc_edges :: "edge list"

text \<open>
  What \<^verbatim>\<open>localStorage.getItem\<close> returns, sorted by what the loaders do with it:
  \<open>Absent\<close> is \<^verbatim>\<open>null\<close>, \<open>Empty\<close> is the empty string (both falsy), \<open>Corrupt\<close> is a
  non-empty text on which \<^verbatim>\<open>JSON.parse\<close> raises \<^verbatim>\<open>SyntaxError\<close>, and \<open>Parsed v\<close>
  is a text that \<^verbatim>\<open>JSON.parse\<close> turns into the value \<open>v\<close>.
\<close>

datatype 'a stored = Absent | Empty | Corrupt | Parsed 'a

datatype js_error = SyntaxError | TypeError

text \<open>
  A handler whose traversal may recurse for ever either returns, with the new state, or
  never returns (in an engine: stops with \<^verbatim>\<open>RangeError\<close> when the stack is
  exhausted), leaving the state with what it had committed by then.
\<close>

datatype 'a outcome = Returns 'a | NeverReturns 'a

definition state_of :: "'a outcome \<Rightarrow> 'a" where
  "state_of r = (case r of Returns s \<Rightarrow> s | NeverReturns s \<Rightarrow> s)"

type_synonym catalog = "string \<rightharpoonup> document"

section \<open>Tree derivation\<close>

text \<open>
  \<^verbatim>\<open>getDescendants\<close> (\<^verbatim>\<open>src/src/App.js\<close>, lines 246-253) calls itself on every
  child and has no set of visited ids, so it may recurse for ever: the model is a partial
  function into \<open>option\<close>, and \<open>None\<close> is the call that never returns (in an engine,
  the one that exhausts the stack). \<open>appendEach f children all\<close> is the
  \<^verbatim>\<open>forEach\<close> loop \<^verbatim>\<open>all = [...all, ...f(childId)]\<close>.
\<close>

primrec appendEach :: "('a \<Rightarrow> 'b list option) \<Rightarrow> 'a list \<Rightarrow> 'b list \<Rightarrow> 'b list option" where
  "appendEach f [] acc = Some acc"
| "appendEach f (c # cs) acc = Option.bind (f c) (\<lambda>ds. appendEach f cs (acc @ ds))"

lemma appendEach_mono [partial_function_mono]:
  assumes "\<And>c. mono_option (\<lambda>f. B f c)"
  shows "mono_option (\<lambda>f. appendEach (B f) cs acc)"
  using assms by (induction cs arbitrary: acc) (auto intro!: partial_function_mono)

partial_function (option) getDescendants :: "edge list \<Rightarrow> string \<Rightarrow> string list option" where
  "getDescendants es parentId =
     (let children = map target (filter (\<lambda>e. source e = parentId) es) in
      Option.bind (appendEach (getDescendants es) children children)
        (\<lambda>all. Some (parentId # all)))"

text \<open>
  \<^verbatim>\<open>getChildren\<close>, the local function of \<^verbatim>\<open>deleteNode\<close> in the editor with history
  (\<^verbatim>\<open>part_000\<close>, line 822): a \<^verbatim>\<open>reduce\<close> over the outgoing edges,
  \<^verbatim>\<open>[...acc, e.target, ...getChildren(e.target)]\<close>, again without a visited set.
\<close>

primrec reduceChildren :: "(string \<Rightarrow> string list option) \<Rightarrow> edge list \<Rightarrow> string list \<Rightarrow> string list option" where
  "reduceChildren f [] acc = Some acc"
| "reduceChildren f (e # es) acc =
     Option.bind (f (target e)) (\<lambda>ds. reduceChildren f es (acc @ [target e] @ ds))"

lemma reduceChildren_mono [partial_function_mono]:
  assumes "\<And>c. mono_option (\<lambda>f. B f c)"
  shows "mono_option (\<lambda>f. reduceChildren (B f) es acc)"
  using assms by (induction es arbitrary: acc) (auto intro!: partial_function_mono)

partial_function (option) getChildren :: "edge list \<Rightarrow> string \<Rightarrow> string list option" where
  "getChildren es i =
     reduceChildren (getChildren es) (filter (\<lambda>e. source e = i) es) []"

text \<open>
  The specification's reading of the descendant set: everything reachable from the node
  along edges from source to target, the node itself included. A cycle is reachable
  from a node when some node reachable from it reaches itself in one step or more.
\<close>

definition edge_rel :: "edge list \<Rightarrow> (string \<times> string) set" where
  "edge_rel es = (\<lambda>e. (source e, target e)) ` set es"

definition descendants :: "string \<Rightarrow> edge list \<Rightarrow> string set" where
  "descendants i es = (edge_rel es)\<^sup>* `` {i}"

definition cycle_reachable :: "edge list \<Rightarrow> string \<Rightarrow> bool" where
  "cycle_reachable es i = (\<exists>c. (i, c) \<in> (edge_rel es)\<^sup>* \<and> (c, c) \<in> (edge_rel es)\<^sup>+)"

section \<open>The single-map editor\<close>

text \<open>
  \<^verbatim>\<open>toggleChildren\<close> (\<^verbatim>\<open>src/src/App.js\<close>, lines 236-243; the same text in the first
  multi-map editor): the updater handed to \<^verbatim>\<open>setNodes\<close>, as a function of the edges
  the traversal reads and of the node list \<^verbatim>\<open>nds\<close>. \<^verbatim>\<open>find\<close> returns the first node
  with the id; on \<^verbatim>\<open>undefined\<close> the optional chain gives \<^verbatim>\<open>undefined\<close>, whose negation
  is \<^verbatim>\<open>true\<close>.
\<close>

definition toggleChildren :: "edge list \<Rightarrow> string \<Rightarrow> node list \<Rightarrow> node list option" where
  "toggleChildren es nodeId nds =
     Option.bind (getDescendants es nodeId) (\<lambda>childIds.
       Some (map (\<lambda>n. if node_id n \<in> set childIds
                        then n\<lparr>hidden := Some (\<not> (case find (\<lambda>x. node_id x = node_id n) nds of
                                                      None \<Rightarrow> False | Some x \<Rightarrow> isHidden x))\<rparr>
                        else n) nds))"

text \<open>
  \<^verbatim>\<open>updateNodeLabel\<close> (lines 145-153) replaces the whole \<^verbatim>\<open>data\<close> object by
  \<^verbatim>\<open>{ label: newLabel }\<close>; in this revision \<^verbatim>\<open>data\<close> holds the label only.
\<close>

definition updateNodeLabel :: "string \<Rightarrow> string \<Rightarrow> node list \<Rightarrow> node list" where
  "updateNodeLabel nodeId newLabel nds =
     map (\<lambda>n. if node_id n = nodeId then n\<lparr>label := newLabel, color := None\<rparr> else n) nds"

text \<open>
  \<^verbatim>\<open>deleteNode\<close> of this revision (lines 206-212), on the node list, the edge list and
  the selection; the result is the new triple, \<open>None\<close> when the traversal never returns.
\<close>

definition deleteNode_single ::
  "node list \<Rightarrow> edge list \<Rightarrow> node option \<Rightarrow> (node list \<times> edge list \<times> node option) option" where
  "deleteNode_single nds es selectedNode =
     (case selectedNode of
        None \<Rightarrow> Some (nds, es, selectedNode)
      | Some sel \<Rightarrow>
          Option.bind (getDescendants es (node_id sel)) (\<lambda>idsToDelete.
            Some (filter (\<lambda>n. node_id n \<notin> set idsToDelete) nds,
                  filter (\<lambda>e. source e \<notin> set idsToDelete \<and> target e \<notin> set idsToDelete) es,
                  None)))"

text \<open>
  \<^verbatim>\<open>addNode\<close> of this revision (lines 183-203) counts the edges that leave the
  selected node, not the nodes of a column, and uses the offsets 250 and 100. The
  engine's arithmetic and the two \<^verbatim>\<open>uuidv4()\<close> results are arguments; the label is
  kept as its UTF-8 bytes.
\<close>

definition newNodeLabel :: string where
  "newNodeLabel = [CHR 0xE6, CHR 0x96, CHR 0xB0, CHR 0xE3, CHR 0x81, CHR 0x97, CHR 0xE3, CHR 0x81,
     CHR 0x84, CHR 0xE3, CHR 0x83, CHR 0x8E, CHR 0xE3, CHR 0x83, CHR 0xBC, CHR 0xE3, CHR 0x83, CHR 0x89]"

definition addNode_single ::
  "arith \<Rightarrow> string \<Rightarrow> string \<Rightarrow> node list \<Rightarrow> edge list \<Rightarrow> node option \<Rightarrow> node list \<times> edge list" where
  "addNode_single ar newId newEdgeId nds es selectedNode =
     (case selectedNode of
        None \<Rightarrow> (nds, es)
      | Some sel \<Rightarrow>
          let childrenCount = length (filter (\<lambda>e. source e = node_id sel) es);
              newNode = \<lparr>node_id = newId,
                         position = \<lparr>pos_x = js_add ar (pos_x (position sel)) 250,
                                     pos_y = js_add ar (pos_y (position sel))
                                               (js_mul ar (real childrenCount) 100)\<rparr>,
                         label = newNodeLabel, color = None, hidden = None\<rparr>
          in (nds @ [newNode], es @ [\<lparr>edge_id = newEdgeId, source = node_id sel, target = newId\<rparr>]))"

text \<open>
  Loading (lines 120-139): \<^verbatim>\<open>loadSavedMap\<close> parses the stored text when it is truthy,
  and the component starts from the saved nodes and edges or from one default node.
  The label of the default node is kept as its UTF-8 bytes.
\<close>

definition loadSavedMap :: "(node list \<times> edge list) stored \<Rightarrow> js_error + (node list \<times> edge list) option" where
  "loadSavedMap saved =
     (case saved of
        Absent \<Rightarrow> Inr None
      | Empty \<Rightarrow> Inr None
      | Corrupt \<Rightarrow> Inl SyntaxError
      | Parsed d \<Rightarrow> Inr (Some d))"

definition defaultLabel :: string where
  "defaultLabel = [CHR 0x43, CHR 0x43, CHR 0x4E, CHR 0x41, CHR 0x20, CHR 0xE3, CHR 0x83, CHR 0x9E,
     CHR 0xE3, CHR 0x82, CHR 0xA4, CHR 0xE3, CHR 0x83, CHR 0xB3, CHR 0xE3, CHR 0x83, CHR 0x89,
     CHR 0xE3, CHR 0x83, CHR 0x9E, CHR 0xE3, CHR 0x83, CHR 0x83, CHR 0xE3, CHR 0x83, CHR 0x97]"

definition initialNodes :: "(node list \<times> edge list) option \<Rightarrow> node list" where
  "initialNodes savedData =
     (case savedData of
        Some d \<Rightarrow> fst d
      | None \<Rightarrow> [\<lparr>node_id = ''1'', position = \<lparr>pos_x = 250, pos_y = 0\<rparr>,
                  label = defaultLabel, color = None, hidden = None\<rparr>])"

definition initialEdges :: "(node list \<times> edge list) option \<Rightarrow> edge list" where
  "initialEdges savedData = (case savedData of Some d \<Rightarrow> snd d | None \<Rightarrow> [])"

definition App_initial :: "(node list \<times> edge list) stored \<Rightarrow> js_error + (node list \<times> edge list)" where
  "App_initial saved =
     (case loadSavedMap saved of
        Inl err \<Rightarrow> Inl err
      | Inr savedData \<Rightarrow> Inr (initialNodes savedData, initialEdges savedData))"

section \<open>The editor with history\<close>

text \<open>
  \<^verbatim>\<open>pushHistory\<close> (\<^verbatim>\<open>part_000\<close>, lines 735-753). A call while the lock is set returns at
  once. Otherwise it sets the lock, keeps the last 20 entries (\<^verbatim>\<open>prev.slice(-20)\<close>)
  and appends the copy. The copy through \<^verbatim>\<open>JSON\<close> is the value itself here. The timer
  callback that clears the lock 100 ms later is \<open>releaseLock\<close>; a handler runs to its end
  before any timer fires.
\<close>

definition pushHistory :: "node list \<Rightarrow> edge list \<Rightarrow> state \<Rightarrow> state" where
  "pushHistory n e st =
     (if isSaving st then st
      else st\<lparr>history := drop (length (history st) - 20) (history st) @ [\<lparr>snap_n = n, snap_e = e\<rparr>],
              isSaving := True\<rparr>)"

definition releaseLock :: "state \<Rightarrow> state" where
  "releaseLock st = st\<lparr>isSaving := False\<rparr>"

text \<open>\<^verbatim>\<open>undo\<close> (lines 755-773).\<close>

definition undo :: "state \<Rightarrow> state" where
  "undo st =
     (if length (history st) < 2 then st
      else let newHistory = butlast (history st) in
           if newHistory = [] then st\<lparr>history := newHistory\<rparr>
           else let prevState = last newHistory in
                st\<lparr>nodes := snap_n prevState, edges := snap_e prevState, history := newHistory\<rparr>)"

text \<open>
  \<^verbatim>\<open>updateLabel\<close> (lines 775-787): the new node list is pushed to the history together
  with the current edges, and becomes the node list.
\<close>

definition updateLabel :: "string \<Rightarrow> string \<Rightarrow> state \<Rightarrow> state" where
  "updateLabel i l st =
     (let nextNodes = map (\<lambda>n. if node_id n = i then n\<lparr>label := l\<rparr> else n) (nodes st)
      in (pushHistory nextNodes (edges st) st)\<lparr>nodes := nextNodes\<rparr>)"

text \<open>
  \<^verbatim>\<open>addNode\<close> (lines 794-817). The engine's arithmetic and the two \<^verbatim>\<open>uuidv4()\<close>
  results are arguments. The offsets 240 and 60 are the specification's
  \<open>COLUMN_OFFSET\<close> and \<open>ROW_OFFSET\<close>. The label of the new node is kept as its UTF-8
  bytes.
\<close>

definition COLUMN_OFFSET :: real where
  "COLUMN_OFFSET = 240"

definition ROW_OFFSET :: real where
  "ROW_OFFSET = 60"

definition newLabel :: string where
  "newLabel = [CHR 0xE6, CHR 0x96, CHR 0xB0, CHR 0xE8, CHR 0xA6, CHR 0x8F,
     CHR 0xE9, CHR 0xA0, CHR 0x85, CHR 0xE7, CHR 0x9B, CHR 0xAE]"

definition addNode :: "arith \<Rightarrow> string \<Rightarrow> string \<Rightarrow> state \<Rightarrow> state" where
  "addNode ar newId newEdgeId st =
     (case selected st of
        None \<Rightarrow> st
      | Some sel \<Rightarrow>
          let st1 = pushHistory (nodes st) (edges st) st;
              siblingCount = length (filter (\<lambda>n. pos_x (position n) =
                                                  js_add ar (pos_x (position sel)) COLUMN_OFFSET) (nodes st));
              newNode = \<lparr>node_id = newId,
                         position = \<lparr>pos_x = js_add ar (pos_x (position sel)) COLUMN_OFFSET,
                                     pos_y = js_add ar (pos_y (position sel))
                                               (js_mul ar (real siblingCount) ROW_OFFSET)\<rparr>,
                         label = newLabel, color = color sel, hidden = None\<rparr>;
              nextNodes = nodes st @ [newNode];
              nextEdges = edges st @ [\<lparr>edge_id = newEdgeId, source = node_id sel, target = newId\<rparr>]
          in pushHistory nextNodes nextEdges (st1\<lparr>nodes := nextNodes, edges := nextEdges\<rparr>))"

text \<open>
  \<^verbatim>\<open>deleteNode\<close> (lines 819-827). \<^verbatim>\<open>pushHistory\<close> runs first; when \<^verbatim>\<open>getChildren\<close>
  never returns, the handler stops there, with the history entry and the lock of that
  push in place and the nodes, the edges and the selection as they were.
\<close>

definition deleteNode :: "state \<Rightarrow> state outcome" where
  "deleteNode st =
     (case selected st of
        None \<Rightarrow> Returns st
      | Some sel \<Rightarrow>
          let st1 = pushHistory (nodes st) (edges st) st in
          (case getChildren (edges st) (node_id sel) of
             None \<Rightarrow> NeverReturns st1
           | Some cs \<Rightarrow>
               let targets = node_id sel # cs in
               Returns (st1\<lparr>nodes := filter (\<lambda>n. node_id n \<notin> set targets) (nodes st1),
                            edges := filter (\<lambda>e. source e \<notin> set targets \<and> target e \<notin> set targets) (edges st1),
                            selected := None\<rparr>)))"

text \<open>
  Selecting: \<^verbatim>\<open>onNodeClick\<close> (line 881) stores the node object it is handed, the node
  as it is in the node list at the click.
\<close>

definition onNodeClick :: "node \<Rightarrow> state \<Rightarrow> state" where
  "onNodeClick n st = st\<lparr>selected := Some n\<rparr>"

text \<open>
  The colour picker's \<^verbatim>\<open>onColorChange\<close> (line 887); the picker is rendered only while
  a node is selected. The selection itself is not refreshed.
\<close>

definition onColorChange :: "string \<Rightarrow> state \<Rightarrow> state" where
  "onColorChange c st =
     (case selected st of
        None \<Rightarrow> st
      | Some sel \<Rightarrow>
          (pushHistory (nodes st) (edges st) st)
            \<lparr>nodes := map (\<lambda>n. if node_id n = node_id sel then n\<lparr>color := Some c\<rparr> else n) (nodes st)\<rparr>)"

text \<open>
  Loading the list (\<^verbatim>\<open>MapListView\<close>, lines 687-692): the state \<^verbatim>\<open>maps\<close> starts as
  \<^verbatim>\<open>{}\<close> and is replaced by the parsed text when the stored text is truthy.
\<close>

definition MapListView_load :: "catalog stored \<Rightarrow> js_error + catalog" where
  "MapListView_load saved =
     (case saved of
        Absent \<Rightarrow> Inr Map.empty
      | Empty \<Rightarrow> Inr Map.empty
      | Corrupt \<Rightarrow> Inl SyntaxError
      | Parsed m \<Rightarrow> Inr m)"

text \<open>
  Opening a map (\<^verbatim>\<open>onSelect\<close>, lines 850-854): the stored text is parsed whatever it
  is. \<^verbatim>\<open>JSON.parse(null)\<close> is \<^verbatim>\<open>null\<close> and indexing it raises \<^verbatim>\<open>TypeError\<close>; the
  empty text does not parse. On a catalog, \<open>m\<close> holds the keys of the stored object
  itself. An id that is none of them but names a property every object inherits
  (\<open>inheritedKeys\<close>, the property names of \<^verbatim>\<open>Object.prototype\<close>) finds that inherited
  value: its \<^verbatim>\<open>nodes\<close> and \<^verbatim>\<open>edges\<close> are \<^verbatim>\<open>undefined\<close>, nothing is raised, and
  \<^verbatim>\<open>undefined\<close> is what \<^verbatim>\<open>setNodes\<close>, \<^verbatim>\<open>setEdges\<close> and the history entry receive,
  with the map id and the view set as for a stored map (\<open>OpenedUndefined\<close>). Any
  other id finds \<^verbatim>\<open>undefined\<close>, and reading \<^verbatim>\<open>d.nodes\<close> raises \<^verbatim>\<open>TypeError\<close>.
\<close>

definition inheritedKeys :: "string list" where
  "inheritedKeys = [''constructor'', ''__defineGetter__'', ''__defineSetter__'', ''hasOwnProperty'',
     ''__lookupGetter__'', ''__lookupSetter__'', ''isPrototypeOf'', ''propertyIsEnumerable'',
     ''toString'', ''valueOf'', ''__proto__'', ''toLocaleString'']"

datatype opened_map = Opened state | OpenedUndefined

definition onSelect :: "catalog stored \<Rightarrow> string \<Rightarrow> state \<Rightarrow> js_error + opened_map" where
  "onSelect saved i st =
     (case saved of
        Absent \<Rightarrow> Inl TypeError
      | Empty \<Rightarrow> Inl SyntaxError
      | Corrupt \<Rightarrow> Inl SyntaxError
      | Parsed m \<Rightarrow>
          (case m i of
             Some d \<Rightarrow>
               Inr (Opened (st\<lparr>nodes := doc_nodes d, edges := doc_edges d, mapId := Some i,
                                view := EditView,
                                history := [\<lparr>snap_n = doc_nodes d, snap_e = doc_edges d\<rparr>]\<rparr>))
           | None \<Rightarrow>
               if i \<in> set inheritedKeys
               then Inr OpenedUndefined
               else Inl TypeError))"

section \<open>Sequences of commands\<close>

text \<open>
  What can happen to the history: a push, the timer that clears the lock, an undo.
  \<open>spacedPushes\<close> is a sequence of pushes each of which arrives after the timer of
  the one before has fired (pushes spaced beyond the 100 ms window).
\<close>

datatype hist_event = Push "node list" "edge list" | Timer | Undo

fun hist_step :: "hist_event \<Rightarrow> state \<Rightarrow> state" where
  "hist_step (Push n e) st = pushHistory n e st"
| "hist_step Timer st = releaseLock st"
| "hist_step Undo st = undo st"

definition run_history :: "hist_event list \<Rightarrow> state \<Rightarrow> state" where
  "run_history evs st = fold hist_step evs st"

definition spacedPushes :: "(node list \<times> edge list) list \<Rightarrow> state \<Rightarrow> state" where
  "spacedPushes ps st = fold (\<lambda>(n, e) s. pushHistory n e (releaseLock s)) ps st"

definition entry :: "node list \<times> edge list \<Rightarrow> snapshot" where
  "entry p = \<lparr>snap_n = fst p, snap_e = snd p\<rparr>"

text \<open>
  Repeated \<^verbatim>\<open>addNode\<close> under one selection; each step says whether the timer has
  fired since the step before, and carries the two fresh ids.
\<close>

definition addChildren :: "arith \<Rightarrow> (bool \<times> string \<times> string) list \<Rightarrow> state \<Rightarrow> state" where
  "addChildren ar steps st =
     fold (\<lambda>(spaced, newId, newEdgeId) s.
             addNode ar newId newEdgeId (if spaced then releaseLock s else s)) steps st"

text \<open>
  What \<^verbatim>\<open>toggleChildren\<close> does to one node once the ids to toggle are known and
  \<^verbatim>\<open>find\<close> has found the node itself.
\<close>

definition flipIn :: "string set \<Rightarrow> node \<Rightarrow> node" where
  "flipIn D n = (if node_id n \<in> D then n\<lparr>hidden := Some (\<not> isHidden n)\<rparr> else n)"

text \<open>
  The specification's \<open>placeChild\<close> and the sibling count it is given, written from
  the specification's words with the engine's arithmetic, to compare \<^verbatim>\<open>addNode\<close> with.
\<close>

definition spec_placeChild :: "arith \<Rightarrow> node \<Rightarrow> nat \<Rightarrow> position" where
  "spec_placeChild ar parent siblingCountAtSameColumn =
     \<lparr>pos_x = js_add ar (pos_x (position parent)) COLUMN_OFFSET,
      pos_y = js_add ar (pos_y (position parent))
                (js_mul ar (real siblingCountAtSameColumn) ROW_OFFSET)\<rparr>"

definition spec_siblingCount :: "arith \<Rightarrow> node \<Rightarrow> node list \<Rightarrow> nat" where
  "spec_siblingCount ar parent nds =
     length (filter (\<lambda>n. pos_x (position n) = js_add ar (pos_x (position parent)) COLUMN_OFFSET) nds)"

section \<open>Example documents\<close>

definition e12 :: edge where
  "e12 = \<lparr>edge_id = ''e12'', source = ''1'', target = ''2''\<rparr>"

definition e13 :: edge where
  "e13 = \<lparr>edge_id = ''e13'', source = ''1'', target = ''3''\<rparr>"

definition e21 :: edge where
  "e21 = \<lparr>edge_id = ''e21'', source = ''2'', target = ''1''\<rparr>"

definition e24 :: edge where
  "e24 = \<lparr>edge_id = ''e24'', source = ''2'', target = ''4''\<rparr>"

text \<open>
  The node \<^verbatim>\<open>onCreate\<close> puts in a new map, a map that has just been opened with that
  node selected, and a small tree of the single-map editor.
\<close>

definition centerLabel :: string where
  "centerLabel = [CHR 0xE4, CHR 0xB8, CHR 0xAD, CHR 0xE5, CHR 0xBF, CHR 0x83]"

definition rootNode :: node where
  "rootNode = \<lparr>node_id = ''1'', position = \<lparr>pos_x = 100, pos_y = 100\<rparr>,
     label = centerLabel, color = Some ''#333'', hidden = None\<rparr>"

definition initial :: state where
  "initial = \<lparr>view = ListView, mapId = None, nodes = [], edges = [], selected = None,
     history = [], isSaving = False\<rparr>"

definition opened :: state where
  "opened = \<lparr>view = EditView, mapId = Some ''m1'', nodes = [rootNode], edges = [],
     selected = Some rootNode, history = [\<lparr>snap_n = [rootNode], snap_e = []\<rparr>], isSaving = False\<rparr>"

definition renamed :: state where
  "renamed = updateLabel ''1'' ''Root'' opened"

definition node1 :: node where
  "node1 = \<lparr>node_id = ''1'', position = \<lparr>pos_x = 250, pos_y = 0\<rparr>,
     label = ''Root'', color = None, hidden = None\<rparr>"

definition node2 :: node where
  "node2 = \<lparr>node_id = ''2'', position = \<lparr>pos_x = 500, pos_y = 0\<rparr>,
     label = ''A'', color = None, hidden = None\<rparr>"

definition node3 :: node where
  "node3 = \<lparr>node_id = ''3'', position = \<lparr>pos_x = 500, pos_y = 100\<rparr>,
     label = ''B'', color = None, hidden = None\<rparr>"

definition node4 :: node where
  "node4 = \<lparr>node_id = ''4'', position = \<lparr>pos_x = 750, pos_y = 0\<rparr>,
     label = ''C'', color = None, hidden = None\<rparr>"

definition treeState :: state where
  "treeState = initial\<lparr>view := EditView, nodes := [node1, node2, node3, node4],
     edges := [e12, e13, e24], selected := Some node2\<rparr>"

definition cyclicState :: state where
  "cyclicState = initial\<lparr>view := EditView, nodes := [node1, node2], edges := [e12, e21],
     selected := Some node1\<rparr>"

text \<open>
  Two children added to the opened map, the second after the lock of the first addition
  has timed out, and the first of them as a click on it hands it over.
\<close>

definition twoChildren :: state where
  "twoChildren = addNode exact ''b'' ''eb'' (releaseLock (addNode exact ''a'' ''ea'' opened))"

definition childA :: node where
  "childA = \<lparr>node_id = ''a'', position = \<lparr>pos_x = 340, pos_y = 100\<rparr>,
     label = newLabel, color = Some ''#333'', hidden = None\<rparr>"

text \<open>
  The first child is clicked and deleted (the lock has timed out before), which a
  cycle-free edge list lets return.
\<close>

definition afterDelete :: state where
  "afterDelete = state_of (deleteNode (onNodeClick childA (releaseLock twoChildren)))"

text \<open>A catalog with one map, as \<^verbatim>\<open>JSON.parse\<close> returns it.\<close>

definition exampleCatalog :: catalog where
  "exampleCatalog = [''m1'' \<mapsto> \<lparr>name = ''Map'', doc_nodes = [rootNode], doc_edges = []\<rparr>]"

section \<open>Properties of the traversals\<close>

lemma appendEach_Some_iff:
  "appendEach f cs acc = Some r \<longleftrightarrow>
     (\<forall>c\<in>set cs. f c \<noteq> None) \<and> r = acc @ concat (map (\<lambda>c. the (f c)) cs)"
  by (induction cs arbitrary: acc) (auto simp: Option.bind_eq_Some_conv)

lemma reduceChildren_Some_iff:
  "reduceChildren f es acc = Some r \<longleftrightarrow>
     (\<forall>e\<in>set es. f (target e) \<noteq> None) \<and>
     r = acc @ concat (map (\<lambda>e. target e # the (f (target e))) es)"
  by (induction es arbitrary: acc) (auto simp: Option.bind_eq_Some_conv)

lemma children_set:
  "set (map target (filter (\<lambda>e. source e = p) es)) = edge_rel es `` {p}"
  by (auto simp: edge_rel_def image_iff)

lemma getDescendants_Some_iff:
  "getDescendants es p = Some ds \<longleftrightarrow>
     (\<forall>c\<in>edge_rel es `` {p}. getDescendants es c \<noteq> None) \<and>
     ds = p # map target (filter (\<lambda>e. source e = p) es) @
          concat (map (\<lambda>c. the (getDescendants es c)) (map target (filter (\<lambda>e. source e = p) es)))"
  by (subst getDescendants.simps)
     (auto simp: Let_def Option.bind_eq_Some_conv appendEach_Some_iff children_set [symmetric])

lemma getChildren_Some_iff:
  "getChildren es p = Some ds \<longleftrightarrow>
     (\<forall>c\<in>edge_rel es `` {p}. getChildren es c \<noteq> None) \<and>
     ds = concat (map (\<lambda>e. target e # the (getChildren es (target e))) (filter (\<lambda>e. source e = p) es))"
  by (subst getChildren.simps)
     (auto simp: reduceChildren_Some_iff children_set [symmetric])

lemma wf_no_cycle:
  assumes "\<not> cycle_reachable es p"
  shows "wf ({(a, b) \<in> edge_rel es. (p, a) \<in> (edge_rel es)\<^sup>*}\<inverse>)"
proof (rule finite_acyclic_wf_converse)
  let ?R = "edge_rel es"
  let ?R' = "{(a, b) \<in> ?R. (p, a) \<in> ?R\<^sup>*}"
  show "finite ?R'"
    by (rule finite_subset [of _ ?R]) (auto simp: edge_rel_def)
  show "acyclic ?R'"
  proof (rule acyclicI, rule allI, rule notI)
    fix c assume c: "(c, c) \<in> ?R'\<^sup>+"
    then obtain z where "(c, z) \<in> ?R'" by (meson tranclD)
    then have reach: "(p, c) \<in> ?R\<^sup>*" by simp
    have "?R' \<subseteq> ?R" by auto
    then have "(c, c) \<in> ?R\<^sup>+" using c trancl_mono by blast
    with reach assms show False unfolding cycle_reachable_def by blast
  qed
qed

lemma getDescendants_returns:
  assumes "\<not> cycle_reachable es p"
  shows "getDescendants es p \<noteq> None"
proof -
  let ?R = "edge_rel es"
  have "(p, a) \<in> ?R\<^sup>* \<longrightarrow> getDescendants es a \<noteq> None" for a
  proof (induction a rule: wf_induct_rule [OF wf_no_cycle [OF assms]])
    case (1 a)
    show ?case
    proof
      assume reach: "(p, a) \<in> ?R\<^sup>*"
      have "getDescendants es c \<noteq> None" if "c \<in> ?R `` {a}" for c
      proof -
        from that have step: "(a, c) \<in> ?R" by simp
        with reach have "(p, c) \<in> ?R\<^sup>*" by (rule rtrancl_into_rtrancl)
        moreover from step reach have "(c, a) \<in> {(a, b) \<in> ?R. (p, a) \<in> ?R\<^sup>*}\<inverse>" by simp
        ultimately show ?thesis using "1.IH" by blast
      qed
      then show "getDescendants es a \<noteq> None"
        using getDescendants_Some_iff [of es a] by blast
    qed
  qed
  then show ?thesis by blast
qed

lemma getChildren_returns:
  assumes "\<not> cycle_reachable es p"
  shows "getChildren es p \<noteq> None"
proof -
  let ?R = "edge_rel es"
  have "(p, a) \<in> ?R\<^sup>* \<longrightarrow> getChildren es a \<noteq> None" for a
  proof (induction a rule: wf_induct_rule [OF wf_no_cycle [OF assms]])
    case (1 a)
    show ?case
    proof
      assume reach: "(p, a) \<in> ?R\<^sup>*"
      have "getChildren es c \<noteq> None" if "c \<in> ?R `` {a}" for c
      proof -
        from that have step: "(a, c) \<in> ?R" by simp
        with reach have "(p, c) \<in> ?R\<^sup>*" by (rule rtrancl_into_rtrancl)
        moreover from step reach have "(c, a) \<in> {(a, b) \<in> ?R. (p, a) \<in> ?R\<^sup>*}\<inverse>" by simp
        ultimately show ?thesis using "1.IH" by blast
      qed
      then show "getChildren es a \<noteq> None"
        using getChildren_Some_iff [of es a] by blast
    qed
  qed
  then show ?thesis by blast
qed

lemma cycle_reachable_child:
  assumes "cycle_reachable es p"
  shows "\<exists>c. (p, c) \<in> edge_rel es \<and> cycle_reachable es c"
proof -
  let ?R = "edge_rel es"
  from assms obtain c where c: "(p, c) \<in> ?R\<^sup>*" "(c, c) \<in> ?R\<^sup>+"
    unfolding cycle_reachable_def by blast
  then have "(p, c) \<in> ?R\<^sup>+" by (rule rtrancl_trancl_trancl)
  then obtain z where z: "(p, z) \<in> ?R" "(z, c) \<in> ?R\<^sup>*" by (meson tranclD)
  with c(2) have "cycle_reachable es z" unfolding cycle_reachable_def by blast
  with z(1) show ?thesis by blast
qed

lemma descendants_unfold:
  "descendants p es = insert p (\<Union>c\<in>edge_rel es `` {p}. descendants c es)"
proof -
  let ?R = "edge_rel es"
  have "(p, y) \<in> ?R\<^sup>* \<longleftrightarrow> y = p \<or> (\<exists>c. (p, c) \<in> ?R \<and> (c, y) \<in> ?R\<^sup>*)" for y
  proof
    assume "(p, y) \<in> ?R\<^sup>*"
    then show "y = p \<or> (\<exists>c. (p, c) \<in> ?R \<and> (c, y) \<in> ?R\<^sup>*)"
      by (cases rule: converse_rtranclE) auto
  next
    assume "y = p \<or> (\<exists>c. (p, c) \<in> ?R \<and> (c, y) \<in> ?R\<^sup>*)"
    then show "(p, y) \<in> ?R\<^sup>*"
      by (auto intro: converse_rtrancl_into_rtrancl)
  qed
  then show ?thesis unfolding descendants_def by blast
qed

lemma set_cons_append_concat:
  "set (p # cs @ concat (map g cs)) = insert p (set cs \<union> (\<Union>c\<in>set cs. set (g c)))"
  by auto

lemma getDescendants_sound:
  assumes "getDescendants es p = Some ds"
  shows "\<not> cycle_reachable es p \<and> set ds = descendants p es"
proof (rule getDescendants.raw_induct
    [where P = "\<lambda>es p ds. \<not> cycle_reachable es p \<and> set ds = descendants p es", OF _ assms])
  fix f :: "edge list \<Rightarrow> string \<Rightarrow> string list option" and es :: "edge list" and p :: string and ds :: "string list"
  let ?cs = "map target (filter (\<lambda>e. source e = p) es)"
  assume IH: "\<And>a b y. f a b = Some y \<Longrightarrow> \<not> cycle_reachable a b \<and> set y = descendants b a"
    and body: "(let children = ?cs in
      Option.bind (appendEach (f es) children children) (\<lambda>all. Some (p # all))) = Some ds"
  from body have def: "\<forall>c\<in>set ?cs. f es c \<noteq> None"
    and ds: "ds = p # ?cs @ concat (map (\<lambda>c. the (f es c)) ?cs)"
    by (auto simp: Let_def Option.bind_eq_Some_conv appendEach_Some_iff)
  have ih: "\<not> cycle_reachable es c \<and> set (the (f es c)) = descendants c es"
    if "c \<in> edge_rel es `` {p}" for c
  proof -
    from that have "c \<in> set ?cs" unfolding children_set .
    with def have "f es c \<noteq> None" by blast
    then obtain r where "f es c = Some r" by blast
    with IH [of es c r] show ?thesis by simp
  qed
  have "\<not> cycle_reachable es p"
    using cycle_reachable_child [of es p] ih by blast
  moreover have "set ds = descendants p es"
  proof -
    have "set ds = insert p (set ?cs \<union> (\<Union>c\<in>set ?cs. set (the (f es c))))"
      unfolding ds by (rule set_cons_append_concat)
    also have "\<dots> = insert p (edge_rel es `` {p} \<union> (\<Union>c\<in>edge_rel es `` {p}. set (the (f es c))))"
      unfolding children_set ..
    also have "\<dots> = insert p (edge_rel es `` {p} \<union> (\<Union>c\<in>edge_rel es `` {p}. descendants c es))"
      using ih by simp
    also have "\<dots> = insert p (\<Union>c\<in>edge_rel es `` {p}. descendants c es)"
      by (auto simp: descendants_def)
    finally show ?thesis by (simp add: descendants_unfold [symmetric])
  qed
  ultimately show "\<not> cycle_reachable es p \<and> set ds = descendants p es" by blast
qed

lemma set_concat_targets:
  "set (concat (map (\<lambda>e. target e # g (target e)) xs)) =
     (\<Union>c\<in>set (map target xs). insert c (set (g c)))"
  by auto

lemma getChildren_sound:
  assumes "getChildren es p = Some cs"
  shows "\<not> cycle_reachable es p \<and> insert p (set cs) = descendants p es"
proof (rule getChildren.raw_induct
    [where P = "\<lambda>es p cs. \<not> cycle_reachable es p \<and> insert p (set cs) = descendants p es", OF _ assms])
  fix f :: "edge list \<Rightarrow> string \<Rightarrow> string list option"
    and es :: "edge list" and p :: string and cs :: "string list"
  let ?out = "filter (\<lambda>e. source e = p) es"
  assume IH: "\<And>a b y. f a b = Some y \<Longrightarrow> \<not> cycle_reachable a b \<and> insert b (set y) = descendants b a"
    and body: "reduceChildren (f es) ?out [] = Some cs"
  from body have def: "\<forall>e\<in>set ?out. f es (target e) \<noteq> None"
    and cs: "cs = concat (map (\<lambda>e. target e # the (f es (target e))) ?out)"
    by (auto simp: reduceChildren_Some_iff)
  have ih: "\<not> cycle_reachable es c \<and> insert c (set (the (f es c))) = descendants c es"
    if "c \<in> edge_rel es `` {p}" for c
  proof -
    from that have "c \<in> set (map target ?out)" unfolding children_set .
    with def have "f es c \<noteq> None" by auto
    then obtain r where "f es c = Some r" by blast
    with IH [of es c r] show ?thesis by simp
  qed
  have "\<not> cycle_reachable es p"
    using cycle_reachable_child [of es p] ih by blast
  moreover have "insert p (set cs) = descendants p es"
  proof -
    have "set cs = (\<Union>c\<in>set (map target ?out). insert c (set (the (f es c))))"
      unfolding cs by (rule set_concat_targets)
    also have "\<dots> = (\<Union>c\<in>edge_rel es `` {p}. insert c (set (the (f es c))))"
      unfolding children_set ..
    also have "\<dots> = (\<Union>c\<in>edge_rel es `` {p}. descendants c es)"
      using ih by simp
    finally show ?thesis by (simp add: descendants_unfold [symmetric])
  qed
  ultimately show "\<not> cycle_reachable es p \<and> insert p (set cs) = descendants p es" by blast
qed

lemma self_in_descendants: "i \<in> descendants i es"
  by (simp add: descendants_def)

lemma cycle_12_21: "cycle_reachable [e12, e21] ''1''"
  unfolding cycle_reachable_def edge_rel_def
  by (rule exI [of _ "''1''"]) (auto simp: e12_def e21_def intro: trancl_into_trancl)

lemma no_cycle_12: "\<not> cycle_reachable [e12] ''1''"
  unfolding cycle_reachable_def edge_rel_def
  by (simp add: e12_def trancl_insert)

text \<open>
  C1 (as amended). When no cycle is reachable from the node, \<open>getDescendants\<close> returns a
  list that holds the node itself, and whose elements are exactly the ids reachable from
  it; \<open>getChildren\<close> returns the same set once the node is put in front. When a cycle
  is reachable from the node, neither call ever returns.
\<close>

theorem getDescendants_returns_iff_no_cycle:
  "(\<not> cycle_reachable es i \<longrightarrow>
      (\<exists>ds. getDescendants es i = Some ds \<and> i \<in> set ds \<and> set ds = descendants i es) \<and>
      (\<exists>cs. getChildren es i = Some cs \<and> set (i # cs) = descendants i es)) \<and>
   (cycle_reachable es i \<longrightarrow> getDescendants es i = None \<and> getChildren es i = None)"
proof (intro conjI impI)
  assume nc: "\<not> cycle_reachable es i"
  from getDescendants_returns [OF nc] obtain ds where ds: "getDescendants es i = Some ds" by blast
  with getDescendants_sound [OF ds] show
    "\<exists>ds. getDescendants es i = Some ds \<and> i \<in> set ds \<and> set ds = descendants i es"
    by (simp add: self_in_descendants)
  from getChildren_returns [OF nc] obtain cs where cs: "getChildren es i = Some cs" by blast
  with getChildren_sound [OF cs] show "\<exists>cs. getChildren es i = Some cs \<and> set (i # cs) = descendants i es"
    by simp
next
  assume c: "cycle_reachable es i"
  show "getDescendants es i = None"
    using getDescendants_sound [of es i] c by (cases "getDescendants es i") auto
  show "getChildren es i = None"
    using getChildren_sound [of es i] c by (cases "getChildren es i") auto
qed

theorem getDescendants_returns_iff_no_cycle_witness:
  "\<not> cycle_reachable [e12] ''1'' \<and>
   (\<exists>ds. getDescendants [e12] ''1'' = Some ds \<and> ''1'' \<in> set ds) \<and>
   cycle_reachable [e12, e21] ''1'' \<and> getChildren [e12, e21] ''1'' = None"
  using getDescendants_returns_iff_no_cycle [of "[e12]" "''1''"]
    getDescendants_returns_iff_no_cycle [of "[e12, e21]" "''1''"]
    no_cycle_12 cycle_12_21
  by blast

text \<open>
  The claim as the specification states it fails on two nodes that point at each other
  (the second edge is one a user draws from the child back to the parent): the call
  never returns.
\<close>

theorem getDescendants_cycle_counterexample:
  "getDescendants [e12, e21] ''1'' = None"
  using getDescendants_sound [of "[e12, e21]" "''1''"] cycle_12_21
  by (cases "getDescendants [e12, e21] ''1''") auto

section \<open>Properties of the history\<close>

lemma history_pushHistory:
  "history (pushHistory n e st) =
     (if isSaving st then history st
      else drop (length (history st) - 20) (history st) @ [\<lparr>snap_n = n, snap_e = e\<rparr>])"
  by (simp add: pushHistory_def)

lemma history_undo:
  "history (undo st) = (if length (history st) < 2 then history st else butlast (history st))"
  by (simp add: undo_def Let_def)

lemma history_releaseLock: "history (releaseLock st) = history st"
  by (simp add: releaseLock_def)

lemma isSaving_releaseLock: "\<not> isSaving (releaseLock st)"
  by (simp add: releaseLock_def)

lemma hist_step_bound:
  "length (history st) \<le> 21 \<Longrightarrow> length (history (hist_step ev st)) \<le> 21"
  by (cases ev) (auto simp: history_pushHistory history_undo history_releaseLock)

lemma run_history_bound:
  "length (history st) \<le> 21 \<Longrightarrow> length (history (run_history evs st)) \<le> 21"
  unfolding run_history_def
  by (induction evs arbitrary: st) (simp_all add: hist_step_bound)

lemma drop_snoc_last21:
  "drop (length (drop (length xs - 21) xs) - 20) (drop (length xs - 21) xs) @ [x] =
   drop (length (xs @ [x]) - 21) (xs @ [x])"
proof (cases "length xs \<le> 20")
  case True
  then show ?thesis by simp
next
  case False
  then have "Suc (length xs - 21) = length xs - 20" by arith
  with False show ?thesis by simp
qed

lemma spacedPushes_snoc:
  "spacedPushes (ps @ [p]) st = pushHistory (fst p) (snd p) (releaseLock (spacedPushes ps st))"
  by (simp add: spacedPushes_def split_beta)

lemma history_spaced_push:
  "history (pushHistory n e (releaseLock st)) =
     drop (length (history st) - 20) (history st) @ [\<lparr>snap_n = n, snap_e = e\<rparr>]"
  by (simp add: history_pushHistory isSaving_releaseLock history_releaseLock)

lemma history_spaced_entry:
  "history (pushHistory (fst p) (snd p) (releaseLock st)) =
     drop (length (history st) - 20) (history st) @ [entry p]"
  by (simp add: history_spaced_push entry_def)

lemma drop_snoc_20:
  "drop (length xs - 20) xs @ [x] = drop (length (xs @ [x]) - 21) (xs @ [x])"
  by (cases "length xs \<le> 20") auto

lemma history_spacedPushes:
  "ps \<noteq> [] \<Longrightarrow>
   history (spacedPushes ps st) =
     drop (length (history st @ map entry ps) - 21) (history st @ map entry ps)"
proof (induction ps rule: rev_induct)
  case Nil
  then show ?case by simp
next
  case (snoc p ps)
  show ?case
  proof (cases "ps = []")
    case True
    have "history (spacedPushes [p] st) = drop (length (history st) - 20) (history st) @ [entry p]"
      by (simp add: spacedPushes_def history_spaced_entry split_beta)
    also have "\<dots> = drop (length (history st @ [entry p]) - 21) (history st @ [entry p])"
      by (rule drop_snoc_20)
    finally show ?thesis by (simp add: True)
  next
    case False
    let ?xs = "history st @ map entry ps"
    have "history (spacedPushes (ps @ [p]) st) =
        drop (length (drop (length ?xs - 21) ?xs) - 20) (drop (length ?xs - 21) ?xs) @ [entry p]"
      by (simp only: spacedPushes_snoc history_spaced_entry snoc.IH [OF False])
    also have "\<dots> = drop (length (?xs @ [entry p]) - 21) (?xs @ [entry p])"
      by (rule drop_snoc_last21)
    finally show ?thesis by simp
  qed
qed

lemma history_spacedPushes_many:
  assumes "21 < length ps"
  shows "history (spacedPushes ps st) = map entry (drop (length ps - 21) ps)"
proof -
  from assms have "ps \<noteq> []" by auto
  then have "history (spacedPushes ps st) =
      drop (length (history st @ map entry ps) - 21) (history st @ map entry ps)"
    by (rule history_spacedPushes)
  also have "\<dots> = drop (length ps - 21) (map entry ps)"
    using assms by simp
  finally show ?thesis by (simp add: drop_map)
qed

lemma length_history_undo_funpow:
  "1 \<le> length (history st) \<Longrightarrow>
   length (history ((undo ^^ k) st)) = max 1 (length (history st) - k)"
  by (induction k) (auto simp: history_undo)

lemma undo_noop: "length (history st) < 2 \<Longrightarrow> undo st = st"
  by (simp add: undo_def)

lemma undo_funpow_noop: "length (history st) < 2 \<Longrightarrow> (undo ^^ k) st = st"
  by (induction k) (simp_all add: undo_noop)

lemma undo_funpow_stops:
  assumes "1 \<le> length (history st)" "length (history st) \<le> 21" "20 \<le> k"
  shows "(undo ^^ k) st = (undo ^^ 20) st"
proof -
  from assms(3) obtain m where k: "k = m + 20" by (metis le_add_diff_inverse2)
  have "length (history ((undo ^^ 20) st)) < 2"
    using assms(1,2) by (simp add: length_history_undo_funpow)
  then have "(undo ^^ m) ((undo ^^ 20) st) = (undo ^^ 20) st"
    by (rule undo_funpow_noop)
  then show ?thesis by (simp add: k funpow_add)
qed

lemma undo_snoc:
  assumes "history s = h @ [x]" "h \<noteq> []"
  shows "nodes (undo s) = snap_n (last h) \<and> edges (undo s) = snap_e (last h) \<and> history (undo s) = h"
proof -
  from assms(2) have "\<not> length (h @ [x]) < 2" by (cases h) auto
  with assms show ?thesis by (simp add: undo_def Let_def)
qed

text \<open>
  C5. Whatever pushes, timer events and undos follow a state whose history holds at most
  21 entries, the history never holds more than 21. A push that is not dropped keeps the
  last 20 entries and appends the new one, so the oldest entries leave from the front.
  After more than 21 pushes spaced beyond the lock window the history holds exactly the
  last 21 of them; from there \<open>k\<close> undos leave \<open>21 - k\<close> entries for \<open>k \<le> 20\<close>, and every
  undo after the twentieth changes nothing.
\<close>

theorem history_bounded:
  "(length (history st) \<le> 21 \<longrightarrow> length (history (run_history evs st)) \<le> 21) \<and>
   (\<not> isSaving st \<longrightarrow>
      history (pushHistory n e st) =
        drop (length (history st) - 20) (history st) @ [\<lparr>snap_n = n, snap_e = e\<rparr>]) \<and>
   (21 < length ps \<longrightarrow>
      history (spacedPushes ps st) = map entry (drop (length ps - 21) ps) \<and>
      length (history (spacedPushes ps st)) = 21 \<and>
      (\<forall>k\<le>20. length (history ((undo ^^ k) (spacedPushes ps st))) = 21 - k) \<and>
      (\<forall>k\<ge>20. (undo ^^ k) (spacedPushes ps st) = (undo ^^ 20) (spacedPushes ps st)))"
proof (intro conjI impI)
  assume "length (history st) \<le> 21"
  then show "length (history (run_history evs st)) \<le> 21" by (rule run_history_bound)
next
  assume "\<not> isSaving st"
  then show "history (pushHistory n e st) =
      drop (length (history st) - 20) (history st) @ [\<lparr>snap_n = n, snap_e = e\<rparr>]"
    by (simp add: history_pushHistory)
next
  assume many: "21 < length ps"
  then show h: "history (spacedPushes ps st) = map entry (drop (length ps - 21) ps)"
    by (rule history_spacedPushes_many)
  from many show len: "length (history (spacedPushes ps st)) = 21"
    by (simp add: h)
  show "\<forall>k\<le>20. length (history ((undo ^^ k) (spacedPushes ps st))) = 21 - k"
    using len by (simp add: length_history_undo_funpow)
  show "\<forall>k\<ge>20. (undo ^^ k) (spacedPushes ps st) = (undo ^^ 20) (spacedPushes ps st)"
    by (intro allI impI, rule undo_funpow_stops) (simp_all add: len)
qed

theorem history_bounded_witness:
  "length (history opened) \<le> 21 \<and>
   length (history (run_history [Push [] [], Timer, Undo] opened)) \<le> 21 \<and>
   \<not> isSaving opened \<and>
   history (pushHistory [] [] opened) =
     [\<lparr>snap_n = [rootNode], snap_e = []\<rparr>, \<lparr>snap_n = [], snap_e = []\<rparr>] \<and>
   21 < length (replicate 22 ([] :: node list, [] :: edge list)) \<and>
   length (history (spacedPushes (replicate 22 ([], [])) opened)) = 21 \<and>
   length (history ((undo ^^ 20) (spacedPushes (replicate 22 ([], [])) opened))) = 1 \<and>
   (undo ^^ 21) (spacedPushes (replicate 22 ([], [])) opened) =
     (undo ^^ 20) (spacedPushes (replicate 22 ([], [])) opened)"
proof -
  have a: "length (history opened) \<le> 21" and b: "\<not> isSaving opened"
    by (simp_all add: opened_def)
  have c: "21 < length (replicate 22 ([] :: node list, [] :: edge list))" by simp
  note T = history_bounded [of opened "[Push [] [], Timer, Undo]" "[]" "[]" "replicate 22 ([], [])"]
  from T a have 1: "length (history (run_history [Push [] [], Timer, Undo] opened)) \<le> 21" by blast
  from T b have "history (pushHistory [] [] opened) =
      drop (length (history opened) - 20) (history opened) @ [\<lparr>snap_n = [], snap_e = []\<rparr>]" by blast
  then have 2: "history (pushHistory [] [] opened) =
     [\<lparr>snap_n = [rootNode], snap_e = []\<rparr>, \<lparr>snap_n = [], snap_e = []\<rparr>]"
    by (simp add: opened_def)
  from T c have 3: "length (history (spacedPushes (replicate 22 ([], [])) opened)) = 21" by blast
  from T c have "\<forall>k\<le>20. length (history ((undo ^^ k) (spacedPushes (replicate 22 ([], [])) opened))) = 21 - k"
    by blast
  then have "length (history ((undo ^^ 20) (spacedPushes (replicate 22 ([], [])) opened))) = 21 - 20"
    by (rule allE [of _ 20]) simp
  then have 4: "length (history ((undo ^^ 20) (spacedPushes (replicate 22 ([], [])) opened))) = 1"
    by simp
  from T c have "\<forall>k\<ge>20. (undo ^^ k) (spacedPushes (replicate 22 ([], [])) opened) =
      (undo ^^ 20) (spacedPushes (replicate 22 ([], [])) opened)"
    by blast
  then have 5: "(undo ^^ 21) (spacedPushes (replicate 22 ([], [])) opened) =
     (undo ^^ 20) (spacedPushes (replicate 22 ([], [])) opened)"
    by (rule allE [of _ 21]) simp
  from a b c 1 2 3 4 5 show ?thesis by blast
qed

text \<open>
  C6. With fewer than two entries \<open>undo\<close> returns the state as it is: nodes, edges and
  history are unchanged. With two or more it drops the top entry and puts the nodes and
  edges of the new top entry in place.
\<close>

theorem undo_cases:
  "(length (history st) < 2 \<longrightarrow> undo st = st) \<and>
   (2 \<le> length (history st) \<longrightarrow>
      undo st = st\<lparr>nodes := snap_n (last (butlast (history st))),
                   edges := snap_e (last (butlast (history st))),
                   history := butlast (history st)\<rparr>)"
proof (intro conjI impI)
  assume "length (history st) < 2"
  then show "undo st = st" by (simp add: undo_def)
next
  assume two: "2 \<le> length (history st)"
  then have "butlast (history st) \<noteq> []"
    by (cases "history st" rule: rev_cases) auto
  with two show "undo st = st\<lparr>nodes := snap_n (last (butlast (history st))),
                   edges := snap_e (last (butlast (history st))),
                   history := butlast (history st)\<rparr>"
    by (simp add: undo_def Let_def)
qed

theorem undo_cases_witness:
  "length (history opened) < 2 \<and> undo opened = opened \<and>
   2 \<le> length (history renamed) \<and>
   nodes renamed = [rootNode\<lparr>label := ''Root''\<rparr>] \<and>
   nodes (undo renamed) = [rootNode] \<and> edges (undo renamed) = [] \<and>
   history (undo renamed) = [\<lparr>snap_n = [rootNode], snap_e = []\<rparr>]"
proof -
  have a: "length (history opened) < 2" by (simp add: opened_def)
  have h: "history renamed =
      [\<lparr>snap_n = [rootNode], snap_e = []\<rparr>, \<lparr>snap_n = [rootNode\<lparr>label := ''Root''\<rparr>], snap_e = []\<rparr>]"
    and n: "nodes renamed = [rootNode\<lparr>label := ''Root''\<rparr>]"
    by (simp_all add: renamed_def updateLabel_def Let_def pushHistory_def opened_def rootNode_def)
  from h have b: "2 \<le> length (history renamed)" by simp
  from undo_cases [of opened] a have "undo opened = opened" by blast
  moreover from undo_cases [of renamed] b
  have "undo renamed = renamed\<lparr>nodes := snap_n (last (butlast (history renamed))),
                   edges := snap_e (last (butlast (history renamed))),
                   history := butlast (history renamed)\<rparr>" by blast
  then have "nodes (undo renamed) = [rootNode] \<and> edges (undo renamed) = [] \<and>
      history (undo renamed) = [\<lparr>snap_n = [rootNode], snap_e = []\<rparr>]"
    by (simp add: h)
  ultimately show ?thesis using a b n by blast
qed

section \<open>Properties of the commands\<close>

lemma nodes_pushHistory: "nodes (pushHistory n e st) = nodes st"
  by (simp add: pushHistory_def)

lemma edges_pushHistory: "edges (pushHistory n e st) = edges st"
  by (simp add: pushHistory_def)

lemma selected_pushHistory: "selected (pushHistory n e st) = selected st"
  by (simp add: pushHistory_def)

lemma nodes_addNode:
  "selected st = Some sel \<Longrightarrow>
   nodes (addNode ar i j st) = nodes st @
     [\<lparr>node_id = i, position = spec_placeChild ar sel (spec_siblingCount ar sel (nodes st)),
       label = newLabel, color = color sel, hidden = None\<rparr>]"
  by (simp add: addNode_def Let_def nodes_pushHistory spec_placeChild_def spec_siblingCount_def)

lemma edges_addNode:
  "selected st = Some sel \<Longrightarrow>
   edges (addNode ar i j st) = edges st @ [\<lparr>edge_id = j, source = node_id sel, target = i\<rparr>]"
  by (simp add: addNode_def Let_def edges_pushHistory)

lemma selected_addNode: "selected (addNode ar i j st) = selected st"
  by (simp add: addNode_def Let_def selected_pushHistory split: option.splits)

lemma history_addNode:
  "selected st = Some sel \<Longrightarrow>
   history (addNode ar i j st) =
     (if isSaving st then history st
      else drop (length (history st) - 20) (history st) @ [\<lparr>snap_n = nodes st, snap_e = edges st\<rparr>])"
  by (simp add: addNode_def Let_def pushHistory_def)

lemma spec_siblingCount_snoc:
  "spec_siblingCount ar sel (nds @ [c]) =
     spec_siblingCount ar sel nds +
       (if pos_x (position c) = js_add ar (pos_x (position sel)) COLUMN_OFFSET then 1 else 0)"
  by (simp add: spec_siblingCount_def)

lemma addChildren_positions:
  "selected st = Some sel \<Longrightarrow>
   \<exists>added. nodes (addChildren ar steps st) = nodes st @ added \<and>
     map position added =
       map (\<lambda>k. spec_placeChild ar sel (spec_siblingCount ar sel (nodes st) + k)) [0..<length steps]"
proof (induction steps arbitrary: st)
  case Nil
  then show ?case by (simp add: addChildren_def)
next
  case (Cons a steps)
  obtain spaced i j where a: "a = (spaced, i, j)" by (cases a)
  let ?s = "if spaced then releaseLock st else st"
  let ?c = "\<lparr>node_id = i, position = spec_placeChild ar sel (spec_siblingCount ar sel (nodes st)),
       label = newLabel, color = color sel, hidden = None\<rparr>"
  let ?st1 = "addNode ar i j ?s"
  have sel_s: "selected ?s = Some sel" and nodes_s: "nodes ?s = nodes st"
    using Cons.prems by (simp_all add: releaseLock_def)
  have n1: "nodes ?st1 = nodes st @ [?c]"
    using nodes_addNode [OF sel_s, of ar i j] by (simp only: nodes_s)
  have sel1: "selected ?st1 = Some sel"
    by (simp only: selected_addNode sel_s)
  have cnt: "spec_siblingCount ar sel (nodes ?st1) = Suc (spec_siblingCount ar sel (nodes st))"
    by (simp only: n1 spec_siblingCount_snoc) (simp add: spec_placeChild_def)
  from Cons.IH [OF sel1] obtain added where
    added: "nodes (addChildren ar steps ?st1) = nodes ?st1 @ added"
      "map position added =
        map (\<lambda>k. spec_placeChild ar sel (spec_siblingCount ar sel (nodes ?st1) + k)) [0..<length steps]"
    by blast
  have unfold: "addChildren ar (a # steps) st = addChildren ar steps ?st1"
    by (simp add: addChildren_def a)
  have "nodes (addChildren ar (a # steps) st) = nodes st @ (?c # added)"
    by (simp only: unfold added(1) n1) simp
  moreover have "map position (?c # added) =
      map (\<lambda>k. spec_placeChild ar sel (spec_siblingCount ar sel (nodes st) + k)) [0..<length (a # steps)]"
    by (simp only: list.map added(2) cnt length_Cons map_upt_Suc) simp
  ultimately show ?case by blast
qed

lemma addChildren_distinct:
  assumes "selected st = Some sel"
    and "inj_on (\<lambda>k. js_add ar (pos_y (position sel)) (js_mul ar (real k) ROW_OFFSET))
           {spec_siblingCount ar sel (nodes st) ..< spec_siblingCount ar sel (nodes st) + length steps}"
  shows "length (drop (length (nodes st)) (nodes (addChildren ar steps st))) = length steps \<and>
    distinct (map position (drop (length (nodes st)) (nodes (addChildren ar steps st))))"
proof -
  let ?c0 = "spec_siblingCount ar sel (nodes st)"
  from addChildren_positions [OF assms(1), of ar steps] obtain added where
    a: "nodes (addChildren ar steps st) = nodes st @ added"
      "map position added = map (\<lambda>k. spec_placeChild ar sel (?c0 + k)) [0..<length steps]"
    by blast
  have "inj_on (\<lambda>k. spec_placeChild ar sel (?c0 + k)) (set [0..<length steps])"
  proof (rule inj_onI)
    fix k k' assume k: "k \<in> set [0..<length steps]" "k' \<in> set [0..<length steps]"
      and eq: "spec_placeChild ar sel (?c0 + k) = spec_placeChild ar sel (?c0 + k')"
    from eq have "js_add ar (pos_y (position sel)) (js_mul ar (real (?c0 + k)) ROW_OFFSET) =
        js_add ar (pos_y (position sel)) (js_mul ar (real (?c0 + k')) ROW_OFFSET)"
      by (simp add: spec_placeChild_def)
    moreover from k have "?c0 + k \<in> {?c0 ..< ?c0 + length steps}" "?c0 + k' \<in> {?c0 ..< ?c0 + length steps}"
      by simp_all
    ultimately have "?c0 + k = ?c0 + k'" using assms(2) by (meson inj_onD)
    then show "k = k'" by simp
  qed
  then have "distinct (map position added)"
    unfolding a(2) by (simp add: distinct_map)
  moreover have "length added = length steps"
    using arg_cong [OF a(2), of length] by simp
  ultimately show ?thesis by (simp add: a(1))
qed

lemma inj_exact_rows:
  "inj_on (\<lambda>k. js_add exact y (js_mul exact (real k) ROW_OFFSET)) A"
  by (rule inj_onI) (simp add: exact_def ROW_OFFSET_def)

lemma addNode_single_position:
  "addNode_single ar i j nds es (Some parent) =
     (nds @ [\<lparr>node_id = i,
              position = \<lparr>pos_x = js_add ar (pos_x (position parent)) 250,
                          pos_y = js_add ar (pos_y (position parent))
                            (js_mul ar (real (length (filter (\<lambda>e. source e = node_id parent) es))) 100)\<rparr>,
              label = newNodeLabel, color = None, hidden = None\<rparr>],
      es @ [\<lparr>edge_id = j, source = node_id parent, target = i\<rparr>])"
  by (simp add: addNode_single_def)

text \<open>
  C7 (as amended). The child that \<open>addNode\<close> appends is placed at the parent's x plus
  \<open>COLUMN_OFFSET\<close> and at the parent's y plus \<open>ROW_OFFSET\<close> times the number of
  nodes already in that column, the sums and the product being the engine's. Children
  added one after the other under the same selection, with nothing else changing the
  node list in between, all get different positions, provided the rows, the parent's y
  plus \<open>ROW_OFFSET\<close> times \<open>k\<close> for the sibling counts \<open>k\<close> of these additions, are
  different numbers; with exact arithmetic they always are. The older \<open>addNode\<close>
  places the child at the parent's x plus 250 and the parent's y plus 100 times the
  number of edges that leave the parent.
\<close>

theorem addNode_position:
  assumes "selected st = Some parent"
  shows
  "(\<exists>c. nodes (addNode ar i j st) = nodes st @ [c] \<and>
        position c =
          \<lparr>pos_x = js_add ar (pos_x (position parent)) COLUMN_OFFSET,
           pos_y = js_add ar (pos_y (position parent))
             (js_mul ar
               (real (length (filter (\<lambda>n. pos_x (position n) =
                                          js_add ar (pos_x (position parent)) COLUMN_OFFSET) (nodes st))))
               ROW_OFFSET)\<rparr>) \<and>
   (inj_on (\<lambda>k. js_add ar (pos_y (position parent)) (js_mul ar (real k) ROW_OFFSET))
      {length (filter (\<lambda>n. pos_x (position n) =
                          js_add ar (pos_x (position parent)) COLUMN_OFFSET) (nodes st)) ..<
       length (filter (\<lambda>n. pos_x (position n) =
                          js_add ar (pos_x (position parent)) COLUMN_OFFSET) (nodes st)) + length steps} \<longrightarrow>
    length (drop (length (nodes st)) (nodes (addChildren ar steps st))) = length steps \<and>
    distinct (map position (drop (length (nodes st)) (nodes (addChildren ar steps st))))) \<and>
   distinct (map position (drop (length (nodes st)) (nodes (addChildren exact steps st)))) \<and>
   addNode_single ar i j (nodes st) (edges st) (selected st) =
     (nodes st @ [\<lparr>node_id = i,
              position = \<lparr>pos_x = js_add ar (pos_x (position parent)) 250,
                          pos_y = js_add ar (pos_y (position parent))
                            (js_mul ar (real (length (filter (\<lambda>e. source e = node_id parent) (edges st)))) 100)\<rparr>,
              label = newNodeLabel, color = None, hidden = None\<rparr>],
      edges st @ [\<lparr>edge_id = j, source = node_id parent, target = i\<rparr>])"
proof (intro conjI impI)
  show "\<exists>c. nodes (addNode ar i j st) = nodes st @ [c] \<and>
        position c =
          \<lparr>pos_x = js_add ar (pos_x (position parent)) COLUMN_OFFSET,
           pos_y = js_add ar (pos_y (position parent))
             (js_mul ar
               (real (length (filter (\<lambda>n. pos_x (position n) =
                                          js_add ar (pos_x (position parent)) COLUMN_OFFSET) (nodes st))))
               ROW_OFFSET)\<rparr>"
    using nodes_addNode [OF assms, of ar i j]
    by (simp add: spec_placeChild_def spec_siblingCount_def)
next
  assume inj: "inj_on (\<lambda>k. js_add ar (pos_y (position parent)) (js_mul ar (real k) ROW_OFFSET))
      {length (filter (\<lambda>n. pos_x (position n) =
                          js_add ar (pos_x (position parent)) COLUMN_OFFSET) (nodes st)) ..<
       length (filter (\<lambda>n. pos_x (position n) =
                          js_add ar (pos_x (position parent)) COLUMN_OFFSET) (nodes st)) + length steps}"
  from addChildren_distinct [OF assms, of ar steps] inj
  show "length (drop (length (nodes st)) (nodes (addChildren ar steps st))) = length steps"
    and "distinct (map position (drop (length (nodes st)) (nodes (addChildren ar steps st))))"
    by (simp_all add: spec_siblingCount_def)
next
  show "distinct (map position (drop (length (nodes st)) (nodes (addChildren exact steps st))))"
    using addChildren_distinct [OF assms inj_exact_rows, of steps] by blast
next
  show "addNode_single ar i j (nodes st) (edges st) (selected st) =
     (nodes st @ [\<lparr>node_id = i,
              position = \<lparr>pos_x = js_add ar (pos_x (position parent)) 250,
                          pos_y = js_add ar (pos_y (position parent))
                            (js_mul ar (real (length (filter (\<lambda>e. source e = node_id parent) (edges st)))) 100)\<rparr>,
              label = newNodeLabel, color = None, hidden = None\<rparr>],
      edges st @ [\<lparr>edge_id = j, source = node_id parent, target = i\<rparr>])"
    unfolding assms by (rule addNode_single_position)
qed

theorem addNode_position_witness:
  "selected opened = Some rootNode \<and>
   nodes (addNode exact ''a'' ''ea'' opened) = [rootNode, childA] \<and>
   inj_on (\<lambda>k. js_add exact (pos_y (position rootNode)) (js_mul exact (real k) ROW_OFFSET))
      {length (filter (\<lambda>n. pos_x (position n) =
                          js_add exact (pos_x (position rootNode)) COLUMN_OFFSET) (nodes opened)) ..<
       length (filter (\<lambda>n. pos_x (position n) =
                          js_add exact (pos_x (position rootNode)) COLUMN_OFFSET) (nodes opened)) +
       length [(True, ''a'', ''ea''), (True, ''b'', ''eb''), (False, ''c'', ''ec'')]} \<and>
   distinct (map position (drop (length (nodes opened))
      (nodes (addChildren exact [(True, ''a'', ''ea''), (True, ''b'', ''eb''), (False, ''c'', ''ec'')] opened))))"
proof -
  have sel: "selected opened = Some rootNode" by (simp add: opened_def)
  note T = addNode_position [OF sel, of exact "''a''" "''ea''"
      "[(True, ''a'', ''ea''), (True, ''b'', ''eb''), (False, ''c'', ''ec'')]"]
  have inj: "inj_on (\<lambda>k. js_add exact (pos_y (position rootNode)) (js_mul exact (real k) ROW_OFFSET))
      {length (filter (\<lambda>n. pos_x (position n) =
                          js_add exact (pos_x (position rootNode)) COLUMN_OFFSET) (nodes opened)) ..<
       length (filter (\<lambda>n. pos_x (position n) =
                          js_add exact (pos_x (position rootNode)) COLUMN_OFFSET) (nodes opened)) +
       length [(True, ''a'', ''ea''), (True, ''b'', ''eb''), (False, ''c'', ''ec'')]}"
    by (rule inj_exact_rows)
  from T inj have d: "distinct (map position (drop (length (nodes opened))
      (nodes (addChildren exact [(True, ''a'', ''ea''), (True, ''b'', ''eb''), (False, ''c'', ''ec'')] opened))))"
    by blast
  from T obtain c where c: "nodes (addNode exact ''a'' ''ea'' opened) = nodes opened @ [c]"
    "position c =
          \<lparr>pos_x = js_add exact (pos_x (position rootNode)) COLUMN_OFFSET,
           pos_y = js_add exact (pos_y (position rootNode))
             (js_mul exact
               (real (length (filter (\<lambda>n. pos_x (position n) =
                                          js_add exact (pos_x (position rootNode)) COLUMN_OFFSET) (nodes opened))))
               ROW_OFFSET)\<rparr>"
    by blast
  have "nodes (addNode exact ''a'' ''ea'' opened) = [rootNode, childA]"
    by (simp add: addNode_def Let_def pushHistory_def opened_def rootNode_def childA_def exact_def
        COLUMN_OFFSET_def ROW_OFFSET_def)
  with sel inj d show ?thesis by blast
qed

lemma nodes_twoChildren:
  "nodes twoChildren = [rootNode, childA,
     \<lparr>node_id = ''b'', position = \<lparr>pos_x = 340, pos_y = 160\<rparr>, label = newLabel,
      color = Some ''#333'', hidden = None\<rparr>]"
  by (simp add: twoChildren_def addNode_def Let_def pushHistory_def releaseLock_def opened_def
      rootNode_def childA_def exact_def COLUMN_OFFSET_def ROW_OFFSET_def)

lemma edges_twoChildren:
  "edges twoChildren = [\<lparr>edge_id = ''ea'', source = ''1'', target = ''a''\<rparr>,
     \<lparr>edge_id = ''eb'', source = ''1'', target = ''b''\<rparr>]"
  by (simp add: twoChildren_def addNode_def Let_def pushHistory_def releaseLock_def opened_def
      rootNode_def)

lemma deleteNode_childA:
  "deleteNode (onNodeClick childA (releaseLock twoChildren)) = Returns afterDelete \<and>
   nodes afterDelete = [rootNode,
     \<lparr>node_id = ''b'', position = \<lparr>pos_x = 340, pos_y = 160\<rparr>, label = newLabel,
      color = Some ''#333'', hidden = None\<rparr>] \<and>
   edges afterDelete = [\<lparr>edge_id = ''eb'', source = ''1'', target = ''b''\<rparr>]"
  by (simp add: afterDelete_def state_of_def deleteNode_def onNodeClick_def releaseLock_def Let_def
      nodes_pushHistory edges_pushHistory nodes_twoChildren edges_twoChildren getChildren.simps
      childA_def rootNode_def)

text \<open>
  The claim as the specification states it, that two children of a column never get
  the same coordinates, fails once a child is deleted: with children \<open>a\<close> and \<open>b\<close>
  added and \<open>a\<close> deleted, the column holds one node again and the next child is
  placed where \<open>b\<close> is.
\<close>

theorem addNode_after_delete_counterexample:
  "nodes twoChildren ! 1 = childA \<and>
   deleteNode (onNodeClick childA (releaseLock twoChildren)) = Returns afterDelete \<and>
   map position (nodes (addNode exact ''c'' ''ec'' (onNodeClick rootNode afterDelete))) =
     [\<lparr>pos_x = 100, pos_y = 100\<rparr>, \<lparr>pos_x = 340, pos_y = 160\<rparr>, \<lparr>pos_x = 340, pos_y = 160\<rparr>]"
proof -
  have sel: "selected (onNodeClick rootNode afterDelete) = Some rootNode"
    by (simp add: onNodeClick_def)
  have n: "nodes (onNodeClick rootNode afterDelete) = [rootNode,
     \<lparr>node_id = ''b'', position = \<lparr>pos_x = 340, pos_y = 160\<rparr>, label = newLabel,
      color = Some ''#333'', hidden = None\<rparr>]"
    using deleteNode_childA by (simp add: onNodeClick_def)
  have "map position (nodes (addNode exact ''c'' ''ec'' (onNodeClick rootNode afterDelete))) =
     [\<lparr>pos_x = 100, pos_y = 100\<rparr>, \<lparr>pos_x = 340, pos_y = 160\<rparr>, \<lparr>pos_x = 340, pos_y = 160\<rparr>]"
    unfolding nodes_addNode [OF sel] n
    by (simp add: spec_placeChild_def spec_siblingCount_def rootNode_def exact_def
        COLUMN_OFFSET_def ROW_OFFSET_def)
  moreover have "nodes twoChildren ! 1 = childA"
    by (simp add: nodes_twoChildren)
  ultimately show ?thesis using deleteNode_childA by blast
qed

text \<open>
  The colour picker recolours the nodes of the node list that have the selected id; the
  selection object keeps the colour it was clicked with.
\<close>

lemma onColorChange_selected: "selected (onColorChange c st) = selected st"
  by (simp add: onColorChange_def selected_pushHistory split: option.splits)

lemma nodes_onColorChange:
  "selected st = Some sel \<Longrightarrow>
   nodes (onColorChange c st) =
     map (\<lambda>n. if node_id n = node_id sel then n\<lparr>color := Some c\<rparr> else n) (nodes st)"
  by (simp add: onColorChange_def)

text \<open>
  C10 (as amended). The child that \<open>addNode\<close> appends carries the colour of the
  selection, the node object that the click stored in \<^verbatim>\<open>selected\<close>, not a fixed
  default. That is the parent's colour in the node list as long as the nodes with the
  parent's id there have the colour of the selection. The colour picker changes the node
  list and leaves the selection as it was, so a child added after a recolour carries the
  colour from before it.
\<close>

theorem addNode_color:
  assumes "selected st = Some parent"
  shows
  "(\<exists>c. nodes (addNode ar i j st) = nodes st @ [c] \<and> node_id c = i \<and> color c = color parent) \<and>
   ((\<forall>n\<in>set (nodes st). node_id n = node_id parent \<longrightarrow> color n = color parent) \<longrightarrow>
      (\<exists>c. nodes (addNode ar i j st) = nodes st @ [c] \<and>
           (\<forall>n\<in>set (nodes st). node_id n = node_id parent \<longrightarrow> color c = color n))) \<and>
   selected (onColorChange col st) = Some parent \<and>
   (\<forall>n\<in>set (nodes (onColorChange col st)). node_id n = node_id parent \<longrightarrow> color n = Some col) \<and>
   (\<exists>c. nodes (addNode ar i j (onColorChange col st)) = nodes (onColorChange col st) @ [c] \<and>
        color c = color parent)"
proof (intro conjI impI)
  show 1: "\<exists>c. nodes (addNode ar i j st) = nodes st @ [c] \<and> node_id c = i \<and> color c = color parent"
    by (simp add: nodes_addNode [OF assms])
  show "\<exists>c. nodes (addNode ar i j st) = nodes st @ [c] \<and>
           (\<forall>n\<in>set (nodes st). node_id n = node_id parent \<longrightarrow> color c = color n)"
    if "\<forall>n\<in>set (nodes st). node_id n = node_id parent \<longrightarrow> color n = color parent"
    using that by (simp add: nodes_addNode [OF assms])
  show sel: "selected (onColorChange col st) = Some parent"
    by (simp only: onColorChange_selected assms)
  show "\<forall>n\<in>set (nodes (onColorChange col st)). node_id n = node_id parent \<longrightarrow> color n = Some col"
    by (auto simp: nodes_onColorChange [OF assms])
  show "\<exists>c. nodes (addNode ar i j (onColorChange col st)) = nodes (onColorChange col st) @ [c] \<and>
        color c = color parent"
    by (simp add: nodes_addNode [OF sel])
qed

theorem addNode_color_witness:
  "selected opened = Some rootNode \<and>
   map node_id (nodes opened) = [node_id rootNode] \<and>
   map color (nodes opened) = [color rootNode] \<and>
   (\<exists>c. nodes (addNode exact ''a'' ''ea'' opened) = nodes opened @ [c] \<and>
        color c = Some ''#333'' \<and> color c = color (nodes opened ! 0)) \<and>
   (\<exists>c. nodes (addNode exact ''a'' ''ea'' (onColorChange ''#dc3545'' opened)) =
          nodes (onColorChange ''#dc3545'' opened) @ [c] \<and> color c = Some ''#333'')"
proof -
  have sel: "selected opened = Some rootNode" by (simp add: opened_def)
  have ns: "nodes opened = [rootNode]" by (simp add: opened_def)
  have sync: "\<forall>n\<in>set (nodes opened). node_id n = node_id rootNode \<longrightarrow> color n = color rootNode"
    by (simp add: ns)
  have col: "color rootNode = Some ''#333''" by (simp add: rootNode_def)
  note T = addNode_color [OF sel, of exact "''a''" "''ea''" "''#dc3545''"]
  from T sync obtain c where c: "nodes (addNode exact ''a'' ''ea'' opened) = nodes opened @ [c]"
    "\<forall>n\<in>set (nodes opened). node_id n = node_id rootNode \<longrightarrow> color c = color n"
    by blast
  from c(2) have cc: "color c = color rootNode" by (simp add: ns)
  from c(1) cc have first: "\<exists>c. nodes (addNode exact ''a'' ''ea'' opened) = nodes opened @ [c] \<and>
        color c = Some ''#333'' \<and> color c = color (nodes opened ! 0)"
    by (simp add: ns col)
  from T have second: "\<exists>c. nodes (addNode exact ''a'' ''ea'' (onColorChange ''#dc3545'' opened)) =
          nodes (onColorChange ''#dc3545'' opened) @ [c] \<and> color c = Some ''#333''"
    unfolding col by blast
  from sel ns first second show ?thesis by simp
qed

text \<open>
  The claim as the specification states it, that the child gets the parent's current
  colour, fails in the run select, recolour, add: the parent is \<open>#dc3545\<close> in the node
  list and the child is created \<open>#333\<close>.
\<close>

theorem addNode_recoloured_counterexample:
  "selected opened = Some rootNode \<and>
   map color (nodes (onColorChange ''#dc3545'' opened)) = [Some ''#dc3545''] \<and>
   map color (nodes (addNode exact ''a'' ''ea'' (onColorChange ''#dc3545'' opened))) =
     [Some ''#dc3545'', Some ''#333'']"
  by (simp add: addNode_def onColorChange_def Let_def pushHistory_def opened_def rootNode_def)

text \<open>
  C9. \<open>updateLabel\<close> rewrites the label of every node with the given id and nothing
  else: ids, positions, colours and hidden flags stay, nodes with another id stay as
  they are, and so do the edges.
\<close>

theorem updateLabel_frame:
  "nodes (updateLabel i l st) = map (\<lambda>n. if node_id n = i then n\<lparr>label := l\<rparr> else n) (nodes st) \<and>
   edges (updateLabel i l st) = edges st \<and>
   length (nodes (updateLabel i l st)) = length (nodes st) \<and>
   (\<forall>k<length (nodes st).
      node_id (nodes (updateLabel i l st) ! k) = node_id (nodes st ! k) \<and>
      position (nodes (updateLabel i l st) ! k) = position (nodes st ! k) \<and>
      color (nodes (updateLabel i l st) ! k) = color (nodes st ! k) \<and>
      hidden (nodes (updateLabel i l st) ! k) = hidden (nodes st ! k) \<and>
      (node_id (nodes st ! k) = i \<longrightarrow> label (nodes (updateLabel i l st) ! k) = l) \<and>
      (node_id (nodes st ! k) \<noteq> i \<longrightarrow> nodes (updateLabel i l st) ! k = nodes st ! k))"
  by (simp add: updateLabel_def Let_def edges_pushHistory)

theorem updateLabel_frame_witness:
  "0 < length (nodes opened) \<and> node_id (nodes opened ! 0) = ''1'' \<and>
   nodes (updateLabel ''1'' ''Root'' opened) = [rootNode\<lparr>label := ''Root''\<rparr>] \<and>
   nodes (updateLabel ''2'' ''Root'' opened) = [rootNode]"
proof -
  have a: "(0::nat) < length (nodes opened)" and b: "node_id (nodes opened ! 0) = ''1''"
    by (simp_all add: opened_def rootNode_def)
  have "nodes (updateLabel ''1'' ''Root'' opened) = [rootNode\<lparr>label := ''Root''\<rparr>]"
    using updateLabel_frame [of "''1''" "''Root''" opened]
    by (simp add: opened_def rootNode_def)
  moreover have "nodes (updateLabel ''2'' ''Root'' opened) = [rootNode]"
    using updateLabel_frame [of "''2''" "''Root''" opened]
    by (simp add: opened_def rootNode_def)
  ultimately show ?thesis using a b by blast
qed

text \<open>
  The older \<^verbatim>\<open>updateNodeLabel\<close> does the same on the nodes of its revision, whose
  \<^verbatim>\<open>data\<close> holds no colour.
\<close>

lemma updateNodeLabel_frame:
  "\<forall>n\<in>set nds. color n = None \<Longrightarrow>
   updateNodeLabel i l nds = map (\<lambda>n. if node_id n = i then n\<lparr>label := l\<rparr> else n) nds"
  by (simp add: updateNodeLabel_def)

text \<open>
  The second \<^verbatim>\<open>pushHistory\<close> of \<open>addNode\<close> runs while the lock set by the first is
  still held, so it is dropped: the top entry after \<open>addNode\<close> is the state before the
  addition, and \<open>undo\<close> steps to the entry beneath it.
\<close>

lemma undo_after_addNode:
  assumes "selected st = Some sel" "\<not> isSaving st" "history st \<noteq> []"
  shows "nodes (undo (addNode ar i j st)) = snap_n (last (history st)) \<and>
         edges (undo (addNode ar i j st)) = snap_e (last (history st))"
proof -
  let ?h = "drop (length (history st) - 20) (history st)"
  have h: "history (addNode ar i j st) = ?h @ [\<lparr>snap_n = nodes st, snap_e = edges st\<rparr>]"
    using assms(1,2) by (simp add: history_addNode)
  have less: "length (history st) - 20 < length (history st)"
    using assms(3) by (cases "history st") auto
  then have ne: "?h \<noteq> []" by simp
  have l: "last ?h = last (history st)"
    using less by (rule last_drop)
  from undo_snoc [OF h ne] show ?thesis by (simp only: l)
qed

text \<open>
  C3 (the code departs from the claim). A map with one node is opened and the node
  selected; a child is added, the lock times out, a second child is added and \<open>undo\<close>
  is called once. Before the second addition there were two nodes and one edge; after
  the undo there is one node and no edge.
\<close>

theorem undo_after_second_addNode:
  "length (nodes (releaseLock (addNode exact ''a'' ''ea'' opened))) = 2 \<and>
   length (edges (releaseLock (addNode exact ''a'' ''ea'' opened))) = 1 \<and>
   length (history (releaseLock (addNode exact ''a'' ''ea'' opened))) = 2 \<and>
   length (nodes (addNode exact ''b'' ''eb'' (releaseLock (addNode exact ''a'' ''ea'' opened)))) = 3 \<and>
   length (history (addNode exact ''b'' ''eb'' (releaseLock (addNode exact ''a'' ''ea'' opened)))) = 3 \<and>
   length (nodes (undo (addNode exact ''b'' ''eb'' (releaseLock (addNode exact ''a'' ''ea'' opened))))) = 1 \<and>
   length (edges (undo (addNode exact ''b'' ''eb'' (releaseLock (addNode exact ''a'' ''ea'' opened))))) = 0"
  by (simp add: addNode_def Let_def pushHistory_def releaseLock_def undo_def opened_def)

lemma deleteNode_Returns:
  assumes "selected st = Some X" "getChildren (edges st) (node_id X) = Some cs"
  shows "deleteNode st = Returns ((pushHistory (nodes st) (edges st) st)
     \<lparr>nodes := filter (\<lambda>n. node_id n \<notin> descendants (node_id X) (edges st)) (nodes st),
      edges := filter (\<lambda>e. source e \<notin> descendants (node_id X) (edges st) \<and>
                         target e \<notin> descendants (node_id X) (edges st)) (edges st),
      selected := None\<rparr>)"
proof -
  from getChildren_sound [OF assms(2)]
  have "set (node_id X # cs) = descendants (node_id X) (edges st)" by simp
  then show ?thesis
    using assms by (simp add: deleteNode_def Let_def nodes_pushHistory edges_pushHistory del: list.set)
qed

lemma deleteNode_NeverReturns:
  assumes "selected st = Some X" "getChildren (edges st) (node_id X) = None"
  shows "deleteNode st = NeverReturns (pushHistory (nodes st) (edges st) st)"
  using assms by (simp add: deleteNode_def Let_def)

lemma deleteNode_single_Some:
  assumes "getDescendants es (node_id X) = Some ds"
  shows "deleteNode_single nds es (Some X) =
     Some (filter (\<lambda>n. node_id n \<notin> descendants (node_id X) es) nds,
           filter (\<lambda>e. source e \<notin> descendants (node_id X) es \<and> target e \<notin> descendants (node_id X) es) es,
           None)"
proof -
  from getDescendants_sound [OF assms]
  have "set ds = descendants (node_id X) es" by simp
  then show ?thesis
    using assms by (simp add: deleteNode_single_def)
qed

lemma getChildren_cycle: "cycle_reachable es i \<Longrightarrow> getChildren es i = None"
  using getChildren_sound [of es i] by (cases "getChildren es i") auto

lemma getDescendants_cycle: "cycle_reachable es i \<Longrightarrow> getDescendants es i = None"
  using getDescendants_sound [of es i] by (cases "getDescendants es i") auto

text \<open>
  C2 (as amended). When no cycle is reachable from the selected node, \<open>deleteNode\<close>
  returns; the nodes left are those whose id is not a descendant of the selected node, in
  their order; the edges left are those with neither end among the descendants; so every
  edge with an end at a removed node is gone and every edge between two nodes that are
  left is kept. The older \<open>deleteNode\<close> leaves the same nodes and edges. When a cycle
  is reachable from the selected node, \<open>deleteNode\<close> never returns, in either
  revision, and removes nothing: the nodes and the edges are as they were, and the
  history entry and the lock of its \<^verbatim>\<open>pushHistory\<close> are in place.
\<close>

theorem deleteNode_removes_descendants:
  assumes "selected st = Some X"
  shows
  "(\<not> cycle_reachable (edges st) (node_id X) \<longrightarrow>
     (\<exists>st'. deleteNode st = Returns st' \<and>
        nodes st' = filter (\<lambda>n. node_id n \<notin> descendants (node_id X) (edges st)) (nodes st) \<and>
        edges st' = filter (\<lambda>e. source e \<notin> descendants (node_id X) (edges st) \<and>
                               target e \<notin> descendants (node_id X) (edges st)) (edges st) \<and>
        (\<forall>e\<in>set (edges st).
           source e \<in> node_id ` (set (nodes st) - set (nodes st')) \<or>
           target e \<in> node_id ` (set (nodes st) - set (nodes st')) \<longrightarrow> e \<notin> set (edges st')) \<and>
        (\<forall>e\<in>set (edges st).
           source e \<in> node_id ` set (nodes st') \<and> target e \<in> node_id ` set (nodes st') \<longrightarrow>
           e \<in> set (edges st')) \<and>
        deleteNode_single (nodes st) (edges st) (selected st) = Some (nodes st', edges st', None))) \<and>
   (cycle_reachable (edges st) (node_id X) \<longrightarrow>
      deleteNode st = NeverReturns (pushHistory (nodes st) (edges st) st) \<and>
      nodes (pushHistory (nodes st) (edges st) st) = nodes st \<and>
      edges (pushHistory (nodes st) (edges st) st) = edges st \<and>
      deleteNode_single (nodes st) (edges st) (selected st) = None)"
proof (intro conjI impI)
  assume nc: "\<not> cycle_reachable (edges st) (node_id X)"
  let ?D = "descendants (node_id X) (edges st)"
  let ?st' = "(pushHistory (nodes st) (edges st) st)
     \<lparr>nodes := filter (\<lambda>n. node_id n \<notin> ?D) (nodes st),
      edges := filter (\<lambda>e. source e \<notin> ?D \<and> target e \<notin> ?D) (edges st),
      selected := None\<rparr>"
  from getChildren_returns [OF nc] obtain cs
    where cs: "getChildren (edges st) (node_id X) = Some cs" by blast
  from getDescendants_returns [OF nc] obtain ds
    where ds: "getDescendants (edges st) (node_id X) = Some ds" by blast
  have 1: "deleteNode st = Returns ?st'" by (rule deleteNode_Returns [OF assms cs])
  have 2: "nodes ?st' = filter (\<lambda>n. node_id n \<notin> ?D) (nodes st)" by simp
  have 3: "edges ?st' = filter (\<lambda>e. source e \<notin> ?D \<and> target e \<notin> ?D) (edges st)" by simp
  have 4: "\<forall>e\<in>set (edges st).
        source e \<in> node_id ` (set (nodes st) - set (nodes ?st')) \<or>
        target e \<in> node_id ` (set (nodes st) - set (nodes ?st')) \<longrightarrow> e \<notin> set (edges ?st')"
    unfolding 2 3 by auto
  have 5: "\<forall>e\<in>set (edges st).
        source e \<in> node_id ` set (nodes ?st') \<and> target e \<in> node_id ` set (nodes ?st') \<longrightarrow>
        e \<in> set (edges ?st')"
    unfolding 2 3 by auto
  have 6: "deleteNode_single (nodes st) (edges st) (selected st) = Some (nodes ?st', edges ?st', None)"
    unfolding 2 3 assms by (rule deleteNode_single_Some [OF ds])
  from 1 2 3 4 5 6 show "\<exists>st'. deleteNode st = Returns st' \<and>
        nodes st' = filter (\<lambda>n. node_id n \<notin> descendants (node_id X) (edges st)) (nodes st) \<and>
        edges st' = filter (\<lambda>e. source e \<notin> descendants (node_id X) (edges st) \<and>
                               target e \<notin> descendants (node_id X) (edges st)) (edges st) \<and>
        (\<forall>e\<in>set (edges st).
           source e \<in> node_id ` (set (nodes st) - set (nodes st')) \<or>
           target e \<in> node_id ` (set (nodes st) - set (nodes st')) \<longrightarrow> e \<notin> set (edges st')) \<and>
        (\<forall>e\<in>set (edges st).
           source e \<in> node_id ` set (nodes st') \<and> target e \<in> node_id ` set (nodes st') \<longrightarrow>
           e \<in> set (edges st')) \<and>
        deleteNode_single (nodes st) (edges st) (selected st) = Some (nodes st', edges st', None)"
    by blast
next
  assume c: "cycle_reachable (edges st) (node_id X)"
  show "deleteNode st = NeverReturns (pushHistory (nodes st) (edges st) st)"
    by (rule deleteNode_NeverReturns [OF assms getChildren_cycle [OF c]])
  show "nodes (pushHistory (nodes st) (edges st) st) = nodes st" by (rule nodes_pushHistory)
  show "edges (pushHistory (nodes st) (edges st) st) = edges st" by (rule edges_pushHistory)
  show "deleteNode_single (nodes st) (edges st) (selected st) = None"
    by (simp add: deleteNode_single_def assms getDescendants_cycle [OF c])
qed

lemma no_cycle_tree_2: "\<not> cycle_reachable [e12, e13] ''2''"
  unfolding cycle_reachable_def edge_rel_def
  by (simp add: e12_def e13_def trancl_insert rtrancl_insert)

lemma no_cycle_tree_1: "\<not> cycle_reachable [e12, e13] ''1''"
  unfolding cycle_reachable_def edge_rel_def
  by (simp add: e12_def e13_def trancl_insert rtrancl_insert)

lemma desc_tree_2: "descendants ''2'' [e12, e13] = {''2''}"
  unfolding descendants_def edge_rel_def
  by (auto simp: e12_def e13_def rtrancl_insert)

lemma no_cycle_subtree_2: "\<not> cycle_reachable [e12, e13, e24] ''2''"
  unfolding cycle_reachable_def edge_rel_def
  by (simp add: e12_def e13_def e24_def trancl_insert rtrancl_insert)

lemma desc_subtree_2: "descendants ''2'' [e12, e13, e24] = {''2'', ''4''}"
  unfolding descendants_def edge_rel_def
  by (auto simp: e12_def e13_def e24_def rtrancl_insert)

theorem deleteNode_removes_descendants_witness:
  "selected treeState = Some node2 \<and> \<not> cycle_reachable (edges treeState) (node_id node2) \<and>
   (\<exists>st'. deleteNode treeState = Returns st' \<and> nodes st' = [node1, node3] \<and> edges st' = [e13]) \<and>
   selected cyclicState = Some node1 \<and> cycle_reachable (edges cyclicState) (node_id node1) \<and>
   (\<exists>st1. deleteNode cyclicState = NeverReturns st1 \<and> nodes st1 = [node1, node2] \<and>
      edges st1 = [e12, e21])"
proof -
  have sel: "selected treeState = Some node2" by (simp add: treeState_def)
  have nc: "\<not> cycle_reachable (edges treeState) (node_id node2)"
    using no_cycle_subtree_2 by (simp add: treeState_def initial_def node2_def)
  have D: "descendants (node_id node2) (edges treeState) = {''2'', ''4''}"
    using desc_subtree_2 by (simp add: treeState_def initial_def node2_def)
  from deleteNode_removes_descendants [OF sel] nc obtain st' where
    st': "deleteNode treeState = Returns st'"
      "nodes st' = filter (\<lambda>n. node_id n \<notin> descendants (node_id node2) (edges treeState)) (nodes treeState)"
      "edges st' = filter (\<lambda>e. source e \<notin> descendants (node_id node2) (edges treeState) \<and>
                            target e \<notin> descendants (node_id node2) (edges treeState)) (edges treeState)"
    by blast
  have "nodes st' = [node1, node3]"
    unfolding st'(2) D by (simp add: treeState_def initial_def node1_def node2_def node3_def node4_def)
  moreover have "edges st' = [e13]"
    unfolding st'(3) D by (simp add: treeState_def initial_def e12_def e13_def e24_def)
  ultimately have first: "\<exists>st'. deleteNode treeState = Returns st' \<and> nodes st' = [node1, node3] \<and>
      edges st' = [e13]"
    using st'(1) by blast
  have selc: "selected cyclicState = Some node1" by (simp add: cyclicState_def)
  have c: "cycle_reachable (edges cyclicState) (node_id node1)"
    using cycle_12_21 by (simp add: cyclicState_def initial_def node1_def)
  from deleteNode_removes_descendants [OF selc] c
  have "deleteNode cyclicState =
      NeverReturns (pushHistory (nodes cyclicState) (edges cyclicState) cyclicState)"
    and "nodes (pushHistory (nodes cyclicState) (edges cyclicState) cyclicState) = nodes cyclicState"
    and "edges (pushHistory (nodes cyclicState) (edges cyclicState) cyclicState) = edges cyclicState"
    by blast+
  moreover have "nodes cyclicState = [node1, node2]" "edges cyclicState = [e12, e21]"
    by (simp_all add: cyclicState_def initial_def)
  ultimately have second: "\<exists>st1. deleteNode cyclicState = NeverReturns st1 \<and>
      nodes st1 = [node1, node2] \<and> edges st1 = [e12, e21]"
    by simp
  from sel nc first selc c second show ?thesis by blast
qed

text \<open>
  The claim as the specification states it fails on two nodes that point at each
  other: \<open>deleteNode\<close> never returns, and both nodes and both edges are still there.
\<close>

theorem deleteNode_cycle_counterexample:
  "deleteNode cyclicState =
     NeverReturns (cyclicState\<lparr>history := [\<lparr>snap_n = [node1, node2], snap_e = [e12, e21]\<rparr>],
                               isSaving := True\<rparr>)"
proof -
  have "getChildren [e12, e21] ''1'' = None"
    by (rule getChildren_cycle [OF cycle_12_21])
  then show ?thesis
    by (simp add: deleteNode_def cyclicState_def initial_def node1_def Let_def pushHistory_def)
qed

section \<open>Collapsing\<close>

lemma find_by_id_distinct:
  "distinct (map node_id nds) \<Longrightarrow> n \<in> set nds \<Longrightarrow>
   find (\<lambda>x. node_id x = node_id n) nds = Some n"
  by (induction nds) (auto simp: image_iff)

lemma toggleChildren_Some:
  assumes "distinct (map node_id nds)" "getDescendants es i = Some ds"
  shows "toggleChildren es i nds = Some (map (flipIn (descendants i es)) nds)"
proof -
  from getDescendants_sound [OF assms(2)] have D: "set ds = descendants i es" by simp
  have "map (\<lambda>n. if node_id n \<in> set ds
                  then n\<lparr>hidden := Some (\<not> (case find (\<lambda>x. node_id x = node_id n) nds of
                                                None \<Rightarrow> False | Some x \<Rightarrow> isHidden x))\<rparr>
                  else n) nds = map (flipIn (descendants i es)) nds"
    by (rule map_cong) (simp_all add: find_by_id_distinct [OF assms(1)] flipIn_def D)
  then show ?thesis using assms(2) by (simp add: toggleChildren_def)
qed

lemma node_id_flipIn: "node_id (flipIn D n) = node_id n"
  by (simp add: flipIn_def)

lemma flipIn_twice:
  "flipIn D (flipIn D n) = (if node_id n \<in> D then n\<lparr>hidden := Some (isHidden n)\<rparr> else n)"
  by (simp add: flipIn_def isHidden_def)

lemma flipIn_twice_present:
  "(node_id n \<in> D \<longrightarrow> hidden n \<noteq> None) \<Longrightarrow> flipIn D (flipIn D n) = n"
  by (auto simp: flipIn_twice isHidden_def)

text \<open>
  C4 (as amended). With distinct node ids and no cycle reachable from the node,
  \<open>toggleChildren\<close> returns; it changes no field but \<open>hidden\<close>; every node whose id
  is a descendant other than the node itself gets the negation of its own flag as it
  reads, not one common value; every node outside the descendants stays as it is. A
  second call returns too, changes no field but \<open>hidden\<close> with respect to the
  original list and gives every flag back as it read; it gives back the original list
  when no descendant's flag was absent (an absent flag comes back as false). When a
  cycle is reachable from the node, \<open>toggleChildren\<close> never returns.
\<close>

theorem toggleChildren_flips:
  assumes "distinct (map node_id nds)"
  shows
  "(\<not> cycle_reachable es nodeId \<longrightarrow>
     (\<exists>nds'. toggleChildren es nodeId nds = Some nds' \<and> length nds' = length nds \<and>
        (\<forall>k<length nds.
           (nds' ! k)\<lparr>hidden := hidden (nds ! k)\<rparr> = nds ! k \<and>
           (node_id (nds ! k) \<in> descendants nodeId es - {nodeId} \<longrightarrow>
              hidden (nds' ! k) = Some (\<not> isHidden (nds ! k))) \<and>
           (node_id (nds ! k) \<notin> descendants nodeId es \<longrightarrow> nds' ! k = nds ! k)) \<and>
        (\<exists>nds''. toggleChildren es nodeId nds' = Some nds'' \<and> length nds'' = length nds \<and>
           (\<forall>k<length nds.
              (nds'' ! k)\<lparr>hidden := hidden (nds ! k)\<rparr> = nds ! k \<and>
              isHidden (nds'' ! k) = isHidden (nds ! k)) \<and>
           ((\<forall>n\<in>set nds. node_id n \<in> descendants nodeId es \<longrightarrow> hidden n \<noteq> None) \<longrightarrow>
              nds'' = nds)))) \<and>
   (cycle_reachable es nodeId \<longrightarrow> toggleChildren es nodeId nds = None)"
proof (intro conjI impI)
  assume nc: "\<not> cycle_reachable es nodeId"
  let ?D = "descendants nodeId es"
  let ?nds' = "map (flipIn ?D) nds"
  let ?nds'' = "map (flipIn ?D) ?nds'"
  from getDescendants_returns [OF nc] obtain ds
    where ds: "getDescendants es nodeId = Some ds" by blast
  have 1: "toggleChildren es nodeId nds = Some ?nds'"
    by (rule toggleChildren_Some [OF assms ds])
  have 2: "length ?nds' = length nds" by simp
  have 3: "\<forall>k<length nds.
        (?nds' ! k)\<lparr>hidden := hidden (nds ! k)\<rparr> = nds ! k \<and>
        (node_id (nds ! k) \<in> ?D - {nodeId} \<longrightarrow> hidden (?nds' ! k) = Some (\<not> isHidden (nds ! k))) \<and>
        (node_id (nds ! k) \<notin> ?D \<longrightarrow> ?nds' ! k = nds ! k)"
    by (simp add: flipIn_def)
  have "map node_id ?nds' = map node_id nds"
    by (simp add: node_id_flipIn)
  with assms have "distinct (map node_id ?nds')" by (simp only:)
  from toggleChildren_Some [OF this ds]
  have 4: "toggleChildren es nodeId ?nds' = Some ?nds''" .
  have 5: "length ?nds'' = length nds" by simp
  have 6: "\<forall>k<length nds.
        (?nds'' ! k)\<lparr>hidden := hidden (nds ! k)\<rparr> = nds ! k \<and>
        isHidden (?nds'' ! k) = isHidden (nds ! k)"
    by (simp add: flipIn_twice) (simp add: isHidden_def)
  have 7: "?nds'' = nds"
    if "\<forall>n\<in>set nds. node_id n \<in> ?D \<longrightarrow> hidden n \<noteq> None"
  proof -
    have "map (\<lambda>n. flipIn ?D (flipIn ?D n)) nds = map (\<lambda>n. n) nds"
      by (rule map_cong) (simp_all add: flipIn_twice_present that)
    then show ?thesis by (simp add: comp_def)
  qed
  from 1 2 3 4 5 6 7 show "\<exists>nds'. toggleChildren es nodeId nds = Some nds' \<and> length nds' = length nds \<and>
        (\<forall>k<length nds.
           (nds' ! k)\<lparr>hidden := hidden (nds ! k)\<rparr> = nds ! k \<and>
           (node_id (nds ! k) \<in> descendants nodeId es - {nodeId} \<longrightarrow>
              hidden (nds' ! k) = Some (\<not> isHidden (nds ! k))) \<and>
           (node_id (nds ! k) \<notin> descendants nodeId es \<longrightarrow> nds' ! k = nds ! k)) \<and>
        (\<exists>nds''. toggleChildren es nodeId nds' = Some nds'' \<and> length nds'' = length nds \<and>
           (\<forall>k<length nds.
              (nds'' ! k)\<lparr>hidden := hidden (nds ! k)\<rparr> = nds ! k \<and>
              isHidden (nds'' ! k) = isHidden (nds ! k)) \<and>
           ((\<forall>n\<in>set nds. node_id n \<in> descendants nodeId es \<longrightarrow> hidden n \<noteq> None) \<longrightarrow>
              nds'' = nds))"
    by blast
next
  assume "cycle_reachable es nodeId"
  then show "toggleChildren es nodeId nds = None"
    by (simp add: toggleChildren_def getDescendants_cycle)
qed

theorem toggleChildren_flips_witness:
  "distinct (map node_id [node1, node2, node3]) \<and> \<not> cycle_reachable [e12, e13] ''1'' \<and>
   (\<exists>nds'. toggleChildren [e12, e13] ''1'' [node1, node2, node3] = Some nds' \<and>
      hidden (nds' ! 1) = Some True \<and> hidden (nds' ! 2) = Some True \<and>
      (\<exists>nds''. toggleChildren [e12, e13] ''1'' nds' = Some nds'' \<and>
         \<not> isHidden (nds'' ! 1) \<and> \<not> isHidden (nds'' ! 2))) \<and>
   \<not> cycle_reachable [e12, e13] ''2'' \<and>
   (\<exists>nds'. toggleChildren [e12, e13] ''2'' [node1, node2, node3] = Some nds' \<and>
      nds' ! 0 = node1 \<and> nds' ! 2 = node3) \<and>
   cycle_reachable [e12, e21] ''1'' \<and>
   toggleChildren [e12, e21] ''1'' [node1, node2, node3] = None"
proof -
  have d: "distinct (map node_id [node1, node2, node3])"
    by (simp add: node1_def node2_def node3_def)
  have D: "''2'' \<in> descendants ''1'' [e12, e13] - {''1''}"
     "''3'' \<in> descendants ''1'' [e12, e13] - {''1''}"
    by (auto simp: descendants_def edge_rel_def e12_def e13_def)
  from toggleChildren_flips [OF d, of "[e12, e13]" "''1''"] no_cycle_tree_1 obtain nds' nds'' where
    t: "toggleChildren [e12, e13] ''1'' [node1, node2, node3] = Some nds'"
    and f: "\<forall>k<length [node1, node2, node3].
        (node_id ([node1, node2, node3] ! k) \<in> descendants ''1'' [e12, e13] - {''1''} \<longrightarrow>
           hidden (nds' ! k) = Some (\<not> isHidden ([node1, node2, node3] ! k)))"
    and b: "toggleChildren [e12, e13] ''1'' nds' = Some nds''"
    and r: "\<forall>k<length [node1, node2, node3].
        isHidden (nds'' ! k) = isHidden ([node1, node2, node3] ! k)"
    by blast
  from f [rule_format, of 1] D(1) have h1: "hidden (nds' ! 1) = Some True"
    by (simp add: node2_def isHidden_def)
  from f [rule_format, of 2] D(2) have h2: "hidden (nds' ! 2) = Some True"
    by (simp add: node3_def isHidden_def)
  from r [rule_format, of 1] have r1: "\<not> isHidden (nds'' ! 1)"
    by (simp add: node2_def isHidden_def)
  from r [rule_format, of 2] have r2: "\<not> isHidden (nds'' ! 2)"
    by (simp add: node3_def isHidden_def)
  from t h1 h2 b r1 r2 have first:
    "\<exists>nds'. toggleChildren [e12, e13] ''1'' [node1, node2, node3] = Some nds' \<and>
      hidden (nds' ! 1) = Some True \<and> hidden (nds' ! 2) = Some True \<and>
      (\<exists>nds''. toggleChildren [e12, e13] ''1'' nds' = Some nds'' \<and>
         \<not> isHidden (nds'' ! 1) \<and> \<not> isHidden (nds'' ! 2))"
    by blast
  from toggleChildren_flips [OF d, of "[e12, e13]" "''2''"] no_cycle_tree_2 obtain nds2 where
    t2: "toggleChildren [e12, e13] ''2'' [node1, node2, node3] = Some nds2"
    and u: "\<forall>k<length [node1, node2, node3].
        (node_id ([node1, node2, node3] ! k) \<notin> descendants ''2'' [e12, e13] \<longrightarrow>
           nds2 ! k = [node1, node2, node3] ! k)"
    by blast
  from u [rule_format, of 0] have "nds2 ! 0 = node1"
    by (simp add: desc_tree_2 node1_def)
  moreover from u [rule_format, of 2] have "nds2 ! 2 = node3"
    by (simp add: desc_tree_2 node3_def)
  ultimately have second: "\<exists>nds'. toggleChildren [e12, e13] ''2'' [node1, node2, node3] = Some nds' \<and>
      nds' ! 0 = node1 \<and> nds' ! 2 = node3"
    using t2 by blast
  from toggleChildren_flips [OF d, of "[e12, e21]" "''1''"] cycle_12_21
  have third: "toggleChildren [e12, e21] ''1'' [node1, node2, node3] = None" by blast
  from d no_cycle_tree_1 no_cycle_tree_2 cycle_12_21 first second third show ?thesis by blast
qed

text \<open>
  The claim as the specification states it, that all descendants get one value, fails
  when the descendants start with different flags: the hidden child becomes visible and
  the visible one hidden.
\<close>

theorem toggleChildren_mixed_counterexample:
  "toggleChildren [e12, e13] ''1'' [node1, node2\<lparr>hidden := Some True\<rparr>, node3] =
     Some [node1\<lparr>hidden := Some True\<rparr>, node2\<lparr>hidden := Some False\<rparr>, node3\<lparr>hidden := Some True\<rparr>]"
  by (simp add: toggleChildren_def getDescendants.simps e12_def e13_def node1_def node2_def node3_def
      isHidden_def)

section \<open>Loading\<close>

text \<open>
  C8 (as amended). On an absent or empty stored value the list view starts from the
  empty mapping and the single-map editor from its one default node, without an error.
  On a corrupt value both raise the \<^verbatim>\<open>SyntaxError\<close> of \<^verbatim>\<open>JSON.parse\<close>, which no
  handler catches. Opening a map from the list has no fallback: it raises on an absent,
  an empty and a corrupt value.
\<close>

theorem load_outcomes:
  "MapListView_load Absent = Inr Map.empty \<and>
   MapListView_load Empty = Inr Map.empty \<and>
   MapListView_load Corrupt = Inl SyntaxError \<and>
   App_initial Absent = Inr ([\<lparr>node_id = ''1'', position = \<lparr>pos_x = 250, pos_y = 0\<rparr>,
                               label = defaultLabel, color = None, hidden = None\<rparr>], []) \<and>
   App_initial Empty = Inr ([\<lparr>node_id = ''1'', position = \<lparr>pos_x = 250, pos_y = 0\<rparr>,
                              label = defaultLabel, color = None, hidden = None\<rparr>], []) \<and>
   App_initial Corrupt = Inl SyntaxError \<and>
   onSelect Absent i st = Inl TypeError \<and>
   onSelect Empty i st = Inl SyntaxError \<and>
   onSelect Corrupt i st = Inl SyntaxError"
  by (simp add: MapListView_load_def App_initial_def loadSavedMap_def initialNodes_def
      initialEdges_def onSelect_def)

text \<open>
  The claim as the specification states it fails on a corrupt value, and for opening a
  map on an absent one as well: the result is an error, not an empty catalog or a
  one-node document.
\<close>

theorem load_corrupt_counterexample:
  "MapListView_load Corrupt = Inl SyntaxError \<and>
   App_initial Corrupt = Inl SyntaxError \<and>
   onSelect Corrupt ''m1'' initial = Inl SyntaxError \<and>
   onSelect Absent ''m1'' initial = Inl TypeError"
  by (simp add: MapListView_load_def App_initial_def loadSavedMap_def onSelect_def)

text \<open>
  On a catalog that parses, opening a stored map gives the state the examples start
  from; an id that is not stored raises, unless it names an inherited property.
\<close>

lemma onSelect_example:
  "onSelect (Parsed exampleCatalog) ''m1'' initial = Inr (Opened (opened\<lparr>selected := None\<rparr>))"
  by (simp add: onSelect_def exampleCatalog_def opened_def initial_def)

lemma onSelect_other_ids:
  "onSelect (Parsed exampleCatalog) ''m2'' initial = Inl TypeError \<and>
   onSelect (Parsed exampleCatalog) ''toString'' initial = Inr OpenedUndefined"
  by (simp add: onSelect_def exampleCatalog_def inheritedKeys_def)

end
